theory Spec2Isabelle
  imports Main "HOL-Library.Multiset" "HOL-Library.Sublist"
begin

section \<open>JavaScript strings\<close>

text \<open>
  A JavaScript string is a sequence of code units. The model uses \<^typ>\<open>string\<close>, so a text
  is a sequence of code units below 256 (the Latin-1 range, which holds every character of
  the program's own constants). \<open>length\<close> is the \<open>.length\<close> of the source.
\<close>

text \<open>White space as \<open>\s\<close> and \<open>String.prototype.trim\<close> see it: TAB, LF, VT, FF, CR, SP, NBSP.\<close>

definition is_space :: "char \<Rightarrow> bool" where
  "is_space c \<longleftrightarrow>
     c = CHR 0x09 \<or> c = CHR 0x0A \<or> c = CHR 0x0B \<or> c = CHR 0x0C \<or> c = CHR 0x0D \<or>
     c = CHR 0x20 \<or> c = CHR 0xA0"

text \<open>The word characters of \<open>\b\<close>: \<open>[A-Za-z0-9_]\<close>.\<close>

definition is_word :: "char \<Rightarrow> bool" where
  "is_word c \<longleftrightarrow>
     c \<in> set ''ABCDEFGHIJKLMNOPQRSTUVWXYZabcdefghijklmnopqrstuvwxyz0123456789_''"

text \<open>
  Canonicalize of the \<open>i\<close> flag: a code unit is compared through its upper-case form. For a
  code unit of 128 or more the upper-case form is never an ASCII code unit, and every pattern
  of the program is ASCII, so such a code unit is left as it is.
\<close>

definition canon :: "char \<Rightarrow> char" where
  "canon c =
     (case map_of (zip ''abcdefghijklmnopqrstuvwxyz'' ''ABCDEFGHIJKLMNOPQRSTUVWXYZ'') c of
        None \<Rightarrow> c
      | Some u \<Rightarrow> u)"

definition same_char :: "bool \<Rightarrow> char \<Rightarrow> char \<Rightarrow> bool" where
  "same_char ic p x = (if ic then canon p = canon x else p = x)"

text \<open>\<open>String.prototype.trim\<close>.\<close>

definition trim :: "string \<Rightarrow> string" where
  "trim s = rev (dropWhile is_space (rev (dropWhile is_space s)))"

text \<open>\<open>Array.prototype.join\<close> on an array of strings.\<close>

fun join :: "string \<Rightarrow> string list \<Rightarrow> string" where
  "join sep [] = []"
| "join sep [x] = x"
| "join sep (x # y # ys) = x @ sep @ join sep (y # ys)"

section \<open>Regular expressions\<close>

text \<open>
  The regular expressions of the program use literals, character classes, \<open>\s\<close>, \<open>\b\<close>,
  a look-behind for one character of a class, sequence, alternation, the greedy \<open>?\<close> and
  the greedy repetition \<open>{n,}\<close> of a character class (\<open>+\<close> is \<open>{1,}\<close>).
\<close>

datatype cset = Chars string | Space

datatype rx =
    Lit string
  | One cset
  | WordB
  | Behind cset
  | Seq rx rx
  | Alt rx rx
  | Opt rx
  | Rep nat cset

text \<open>
  A cursor is a position in the subject string: the code unit before the position, if any,
  and the rest of the string from the position on.
\<close>

type_synonym cursor = "char option \<times> string"

fun in_cset :: "bool \<Rightarrow> cset \<Rightarrow> char \<Rightarrow> bool" where
  "in_cset ic (Chars cs) x = list_ex (\<lambda>p. same_char ic p x) cs"
| "in_cset ic Space x = is_space x"

fun word_at :: "char option \<Rightarrow> bool" where
  "word_at None = False"
| "word_at (Some c) = is_word c"

fun next_char :: "string \<Rightarrow> char option" where
  "next_char [] = None"
| "next_char (x # xs) = Some x"

fun lit_match :: "bool \<Rightarrow> string \<Rightarrow> cursor \<Rightarrow> cursor option" where
  "lit_match ic [] cur = Some cur"
| "lit_match ic (p # ps) (prev, []) = None"
| "lit_match ic (p # ps) (prev, x # xs) =
     (if same_char ic p x then lit_match ic ps (Some x, xs) else None)"

text \<open>
  Greedy repetition of a class, at least \<open>n\<close> times: one more code unit is tried first, then
  stopping here (allowed once the minimum is reached).
\<close>

fun rep_matches :: "bool \<Rightarrow> cset \<Rightarrow> nat \<Rightarrow> cursor \<Rightarrow> cursor list" where
  "rep_matches ic c n (prev, []) = (if n = 0 then [(prev, [])] else [])"
| "rep_matches ic c n (prev, x # xs) =
     (if in_cset ic c x then rep_matches ic c (n - 1) (Some x, xs) else [])
     @ (if n = 0 then [(prev, x # xs)] else [])"

text \<open>
  All the ways a pattern matches at a cursor, as the cursors after the match, in the order
  in which the backtracking matcher of the language tries them: the first one is the match.
\<close>

fun rx_matches :: "bool \<Rightarrow> rx \<Rightarrow> cursor \<Rightarrow> cursor list" where
  "rx_matches ic (Lit s) cur = (case lit_match ic s cur of None \<Rightarrow> [] | Some c \<Rightarrow> [c])"
| "rx_matches ic (One c) (prev, s) =
     (case s of [] \<Rightarrow> [] | x # xs \<Rightarrow> if in_cset ic c x then [(Some x, xs)] else [])"
| "rx_matches ic WordB (prev, s) =
     (if word_at prev \<noteq> word_at (next_char s) then [(prev, s)] else [])"
| "rx_matches ic (Behind c) (prev, s) =
     (case prev of None \<Rightarrow> [] | Some p \<Rightarrow> if in_cset ic c p then [(prev, s)] else [])"
| "rx_matches ic (Seq a b) cur = concat (map (rx_matches ic b) (rx_matches ic a cur))"
| "rx_matches ic (Alt a b) cur = rx_matches ic a cur @ rx_matches ic b cur"
| "rx_matches ic (Opt a) cur = rx_matches ic a cur @ [cur]"
| "rx_matches ic (Rep n c) cur = rep_matches ic c n cur"

definition rx_exec_at :: "bool \<Rightarrow> rx \<Rightarrow> cursor \<Rightarrow> cursor option" where
  "rx_exec_at ic r cur = (case rx_matches ic r cur of [] \<Rightarrow> None | c # _ \<Rightarrow> Some c)"

text \<open>
  \<open>String.prototype.replace\<close> with a global pattern and a replacement string that has no
  \<open>$\<close>: from left to right, the leftmost match is replaced and the search goes on after it;
  after an empty match the search moves one code unit on.
\<close>

function replace_from :: "bool \<Rightarrow> rx \<Rightarrow> string \<Rightarrow> cursor \<Rightarrow> string" where
  "replace_from ic r repl (prev, s) =
     (case rx_exec_at ic r (prev, s) of
        None \<Rightarrow> (case s of [] \<Rightarrow> [] | x # xs \<Rightarrow> x # replace_from ic r repl (Some x, xs))
      | Some (prev', s') \<Rightarrow>
          if length s' < length s then repl @ replace_from ic r repl (prev', s')
          else (case s of [] \<Rightarrow> repl
                | x # xs \<Rightarrow> repl @ x # replace_from ic r repl (Some x, xs)))"
  by pat_completeness auto
termination
  by (relation "measure (\<lambda>(ic, r, repl, cur). length (snd cur))") auto

declare replace_from.simps [simp del]

definition js_replace :: "bool \<Rightarrow> rx \<Rightarrow> string \<Rightarrow> string \<Rightarrow> string" where
  "js_replace ic r repl text = replace_from ic r repl (None, text)"

text \<open>\<open>RegExp.prototype.test\<close> of a pattern without the global flag: is there a match anywhere.\<close>

fun test_from :: "bool \<Rightarrow> rx \<Rightarrow> cursor \<Rightarrow> bool" where
  "test_from ic r (prev, []) = (rx_exec_at ic r (prev, []) \<noteq> None)"
| "test_from ic r (prev, x # xs) =
     (rx_exec_at ic r (prev, x # xs) \<noteq> None \<or> test_from ic r (Some x, xs))"

definition js_test :: "bool \<Rightarrow> rx \<Rightarrow> string \<Rightarrow> bool" where
  "js_test ic r text = test_from ic r (None, text)"

text \<open>
  \<open>String.prototype.split\<close> with a pattern and no limit. \<open>acc\<close> holds the code units of the
  piece being read (from index \<open>p\<close> to index \<open>q\<close> of the language's algorithm); a match is
  tried at every \<open>q\<close> before the end, and a match that ends at \<open>p\<close> is skipped.
\<close>

function split_from :: "bool \<Rightarrow> rx \<Rightarrow> string \<Rightarrow> cursor \<Rightarrow> string list" where
  "split_from ic r acc (prev, []) = [acc]"
| "split_from ic r acc (prev, x # xs) =
     (case rx_exec_at ic r (prev, x # xs) of
        None \<Rightarrow> split_from ic r (acc @ [x]) (Some x, xs)
      | Some (prev', s') \<Rightarrow>
          if length s' < length (x # xs) then acc # split_from ic r [] (prev', s')
          else if acc = [] then split_from ic r (acc @ [x]) (Some x, xs)
          else acc # split_from ic r [] (prev, x # xs))"
  by pat_completeness auto
termination
  by (relation "measure (\<lambda>(ic, r, acc, cur). 2 * length (snd cur) + (if acc = [] then 0 else 1))")
     auto

declare split_from.simps [simp del]

definition js_split :: "bool \<Rightarrow> rx \<Rightarrow> string \<Rightarrow> string list" where
  "js_split ic r text =
     (if text = [] then (if rx_exec_at ic r (None, []) \<noteq> None then [] else [[]])
      else split_from ic r [] (None, text))"

section \<open>Sentence segmenter\<close>

text \<open>\<open>/\n+/g\<close> and \<open>/(?<=[.!?])\s+/\<close>.\<close>

definition NEWLINES :: rx where
  "NEWLINES = Rep 1 (Chars [CHR 0x0A])"

definition SENTENCE_END :: rx where
  "SENTENCE_END = Seq (Behind (Chars ''.!?'')) (Rep 1 Space)"

definition splitSentences :: "string \<Rightarrow> string list" where
  "splitSentences text =
     filter (\<lambda>s. s \<noteq> [])
       (map trim (js_split False SENTENCE_END (js_replace False NEWLINES '' '' text)))"

section \<open>Extractive summarizer\<close>

record ranked =
  sent :: string
  len :: nat

text \<open>
  \<open>Array.prototype.sort\<close> is stable; with the comparator \<open>(a,b) => b.len - a.len\<close> it is
  the stable sort by falling \<open>len\<close>. \<open>rank s\<close> is the array \<open>ranked\<close> of the source.
\<close>

definition rank :: "string list \<Rightarrow> ranked list" where
  "rank s =
     sort_key (\<lambda>r. - int (len r)) (map (\<lambda>sent. \<lparr>sent = sent, len = length sent\<rparr>) s)"

definition localSummarize :: "string \<Rightarrow> nat \<Rightarrow> string" where
  "localSummarize text maxSentences =
     (if text = [] then []
      else
        let s = splitSentences text in
        if length s \<le> maxSentences then join '' '' s
        else
          let ranked = rank s;
              top = map sent (take maxSentences ranked)
          in join [CHR 0x0A, CHR 0x0A] top)"

section \<open>Plain-language rewriter\<close>

fun seqs :: "rx list \<Rightarrow> rx" where
  "seqs [] = Lit []"
| "seqs [r] = r"
| "seqs (r # rs) = Seq r (seqs rs)"

fun alts :: "rx list \<Rightarrow> rx" where
  "alts [] = Lit []"
| "alts [r] = r"
| "alts (r # rs) = Alt r (alts rs)"

text \<open>The eight rules, each pattern with the flags \<open>ig\<close>.\<close>

definition LEGAL_MAP :: "(rx \<times> string) list" where
  "LEGAL_MAP =
    [ (seqs [WordB, Lit ''you '', alts [Lit ''agree'', Lit ''acknowledge'', Lit ''consent''],
             Lit '' to'', WordB],
       ''you agree to''),
      (seqs [WordB, Lit ''hereby'', WordB], ''this means''),
      (seqs [WordB, Lit ''to the extent permitted by law'', WordB], ''if the law allows it''),
      (seqs [WordB, Lit ''in the event of'', WordB], ''if''),
      (seqs [WordB, Lit ''may '', Opt (Lit ''be ''), Lit ''liable for'', WordB],
       ''could be responsible for''),
      (seqs [WordB, Lit ''third'', Opt (One (Chars ''- '')), Lit ''party'',
             Opt (alts [Lit '' data'', Lit '' services'', Lit '' providers'']), WordB],
       ''other companies''),
      (seqs [WordB, Lit ''auto'', Opt (Lit ''-''), Lit ''renew'',
             Opt (alts [Lit ''a'', Lit ''al'']), WordB],
       ''auto-renewal (automatic renewal of service or payment)''),
      (seqs [WordB, Lit ''terminate'', Opt (alts [Lit ''ion'', Lit ''ing'']), WordB],
       ''end/stop'') ]"

text \<open>\<open>/\s{2,}/g\<close>.\<close>

definition REPEATED_SPACE :: rx where
  "REPEATED_SPACE = Rep 2 Space"

definition localRewrite :: "string \<Rightarrow> string" where
  "localRewrite text =
     (if text = [] then []
      else
        let out = fold (\<lambda>(rx, repl) out. js_replace True rx repl out) LEGAL_MAP text
        in trim (js_replace False REPEATED_SPACE '' '' out))"

section \<open>Risk classifier\<close>

datatype severity = Safe | Warning | Danger

record check =
  key :: string
  rx :: rx
  level :: severity
  explain :: string

record item =
  item_id :: string
  item_level :: severity
  item_explain :: string

record classification =
  overall :: severity
  items :: "item list"

definition checks :: "check list" where
  "checks =
    [ \<lparr>key = ''auto-renew'',
       rx = alts [seqs [Lit ''auto'', Opt (Lit ''-''), Lit ''renew''], Lit ''renewal''],
       level = Danger, explain = ''Automatic renewal or subscription renewal clause''\<rparr>,
      \<lparr>key = ''fees'',
       rx = alts [Lit ''fee'', Lit ''charge'', Lit ''cost'', Lit ''billing''],
       level = Warning, explain = ''Mentions fees, charges or billing terms''\<rparr>,
      \<lparr>key = ''data-sharing'',
       rx = alts [Lit ''share your data'',
                  seqs [Lit ''third'', Opt (One (Chars ''- '')), Lit ''party''],
                  Lit ''personal data'', Lit ''process personal data''],
       level = Warning, explain = ''Mentions sharing or processing of personal data''\<rparr>,
      \<lparr>key = ''waiver'',
       rx = alts [Lit ''waive'', Lit ''waiver'', Lit ''limit liability'',
                  Lit ''limitation of liability''],
       level = Danger, explain = ''Limits your ability to sue or reduces liability''\<rparr>,
      \<lparr>key = ''dispute'',
       rx = alts [Lit ''arbitration'', Lit ''dispute resolution'', Lit ''class action waiver''],
       level = Warning, explain = ''Requires arbitration or limits dispute options''\<rparr> ]"

text \<open>
  The loop over \<open>checks\<close>: a check whose pattern is found pushes its item. (The variable
  \<open>lowered\<close> of the source is never read.)
\<close>

definition finding :: "check \<Rightarrow> item" where
  "finding c = \<lparr>item_id = key c, item_level = level c, item_explain = explain c\<rparr>"

fun push_clauses :: "check list \<Rightarrow> string \<Rightarrow> item list \<Rightarrow> item list" where
  "push_clauses [] text clauses = clauses"
| "push_clauses (c # cs) text clauses =
     push_clauses cs text
       (if js_test True (rx c) text
        then clauses @ [finding c]
        else clauses)"

definition localClassify :: "string \<Rightarrow> classification" where
  "localClassify text =
     (if text = [] then \<lparr>overall = Safe, items = []\<rparr>
      else
        let clauses = push_clauses checks text [];
            overall = (if list_ex (\<lambda>c. item_level c = Danger) clauses then Danger
                       else if length clauses \<noteq> 0 then Warning
                       else Safe)
        in \<lparr>overall = overall, items = clauses\<rparr>)"

section \<open>Phrase translator\<close>

definition es_phrases :: "(string \<times> string) list" where
  "es_phrases =
    [ (''Automatic renewal or subscription renewal clause'',
       ''Cl'' @ [CHR 0xE1] @ ''usula de renovaci'' @ [CHR 0xF3] @ ''n autom'' @ [CHR 0xE1]
         @ ''tica o suscripci'' @ [CHR 0xF3] @ ''n''),
      (''Mentions fees, charges or billing terms'',
       ''Menciona tarifas, cargos o t'' @ [CHR 0xE9] @ ''rminos de facturaci'' @ [CHR 0xF3]
         @ ''n''),
      (''Mentions sharing or processing of personal data'',
       ''Menciona el intercambio o procesamiento de datos personales''),
      (''Limits your ability to sue or reduces liability'',
       ''Limita su capacidad para demandar o reduce la responsabilidad''),
      (''Requires arbitration or limits dispute options'',
       ''Requiere arbitraje o limita las opciones de disputa'') ]"

text \<open>
  The object \<open>TRANSLATIONS\<close> has the one own property \<open>es\<close>. A name it inherits (such as
  \<open>constructor\<close>) reads as an object without own enumerable properties, so that
  \<open>Object.entries(TRANSLATIONS[lang] || {})\<close> is empty for every \<open>lang\<close> but \<open>es\<close>.
\<close>

definition TRANSLATIONS :: "string \<Rightarrow> (string \<times> string) list option" where
  "TRANSLATIONS lang = (if lang = ''es'' then Some es_phrases else None)"

definition entries :: "string \<Rightarrow> (string \<times> string) list" where
  "entries lang = (case TRANSLATIONS lang of None \<Rightarrow> [] | Some m \<Rightarrow> m)"

text \<open>
  \<open>new RegExp(k, 'g')\<close> reads the phrase \<open>k\<close> as a pattern. The phrases of \<open>TRANSLATIONS\<close>
  are made of letters, spaces and a comma, none of which is special in a pattern, so the
  pattern is the sequence of the phrase's characters.
\<close>

definition RegExp :: "string \<Rightarrow> rx" where
  "RegExp k = Lit k"

text \<open>The characters that are special in a pattern.\<close>

definition pattern_special :: "char \<Rightarrow> bool" where
  "pattern_special c \<longleftrightarrow> c \<in> set ([CHR 0x5C] @ ''^$.*+?()[]{}|/'')"

definition translated_note :: "string \<Rightarrow> string" where
  "translated_note lang =
     [CHR 0x0A, CHR 0x0A] @ ''[Translated to '' @ lang @ '' (approx)]''"

definition localTranslate :: "string \<Rightarrow> string \<Rightarrow> string" where
  "localTranslate text lang =
     (if text = [] then []
      else if lang = ''en'' then text
      else
        let out = fold (\<lambda>(k, v) out. js_replace False (RegExp k) v out) (entries lang) text
        in out @ (if out = text then translated_note lang else []))"

section \<open>Pipeline orchestrator\<close>

text \<open>
  A remote call resolves to a string or is rejected. \<open>window.googleAI\<close> may be undefined, and
  reading a property of it then throws a TypeError, inside the \<open>try\<close> block.
\<close>

datatype error = TypeError | RemoteFailure string

type_synonym response = "error + string"

record remote =
  summarizeText :: "string \<Rightarrow> response"
  generateText :: "string \<Rightarrow> response"
  translateText :: "string \<Rightarrow> string \<Rightarrow> response"

text \<open>
  What \<open>runPipeline\<close> reads of its environment: the configured API key (empty when there is
  none), whether \<open>window.__contractDecoder_googleAI\<close> is loaded, the object
  \<open>window.googleAI\<close>, and the text of the current selection (empty when there is none).
\<close>

record window =
  API_KEY :: string
  contractDecoder_googleAI :: bool
  googleAI :: "remote option"
  selection :: string

definition call_remote :: "window \<Rightarrow> (remote \<Rightarrow> response) \<Rightarrow> response" where
  "call_remote w f = (case googleAI w of None \<Rightarrow> Inl TypeError | Some g \<Rightarrow> f g)"

definition hasAPI :: "window \<Rightarrow> bool" where
  "hasAPI w \<longleftrightarrow> API_KEY w \<noteq> [] \<and> contractDecoder_googleAI w"

definition EXPLAIN_PROMPT :: string where
  "EXPLAIN_PROMPT =
     ''Please explain the following text in simple terms:'' @ [CHR 0x0A, CHR 0x0A]"

text \<open>
  The summarize and explain step. A rejected call leaves the \<open>try\<close> block for the \<open>catch\<close>
  block, which assigns both variables. A resolved value is a string, which \<open>|| ''\<close> leaves
  as it is.
\<close>

definition summarize_explain :: "window \<Rightarrow> string \<Rightarrow> string \<times> string" where
  "summarize_explain w text =
     (if hasAPI w then
        (case call_remote w (\<lambda>g. summarizeText g text) of
           Inl e \<Rightarrow> (localSummarize text 3, localRewrite text)
         | Inr summary \<Rightarrow>
             (case call_remote w (\<lambda>g. generateText g (EXPLAIN_PROMPT @ text)) of
                Inl e \<Rightarrow> (localSummarize text 3, localRewrite text)
              | Inr plain \<Rightarrow> (summary, plain)))
      else (localSummarize text 3, localRewrite text))"

text \<open>The translation step.\<close>

definition translate_pair :: "window \<Rightarrow> string \<Rightarrow> string \<Rightarrow> string \<Rightarrow> string \<times> string" where
  "translate_pair w summary plain lang =
     (if lang \<noteq> ''en'' then
        (if hasAPI w then
           (case call_remote w (\<lambda>g. translateText g summary lang) of
              Inl e \<Rightarrow> (localTranslate summary lang, localTranslate plain lang)
            | Inr translatedSummary \<Rightarrow>
                (case call_remote w (\<lambda>g. translateText g plain lang) of
                   Inl e \<Rightarrow> (localTranslate summary lang, localTranslate plain lang)
                 | Inr translatedPlain \<Rightarrow> (translatedSummary, translatedPlain)))
         else (localTranslate summary lang, localTranslate plain lang))
      else (summary, plain))"

text \<open>What an element of the sidebar shows: the dash placeholder for an empty text.\<close>

datatype shown = Placeholder | Shown string

definition or_placeholder :: "string \<Rightarrow> shown" where
  "or_placeholder s = (if s = [] then Placeholder else Shown s)"

text \<open>
  The outcome of a run: the variables \<open>text\<close>, \<open>summary\<close>, \<open>plain\<close> and \<open>classification\<close>
  of the function, and what it wrote into the sidebar.
\<close>

record run =
  run_text :: string
  run_summary :: string
  run_plain :: string
  run_classification :: classification
  cd_input :: string
  cd_summary :: shown
  cd_plain :: shown
  cd_risks :: "(severity \<times> string) list"
  cd_confidence :: string

definition runPipeline :: "window \<Rightarrow> string \<Rightarrow> string \<Rightarrow> error + run" where
  "runPipeline w text0 lang =
     (let text = (if text0 = [] then selection w else text0);
          (summary, plain) = summarize_explain w text;
          (translatedSummary, translatedPlain) = translate_pair w summary plain lang;
          classification = localClassify text
      in Inr \<lparr>run_text = text, run_summary = summary, run_plain = plain,
               run_classification = classification,
               cd_input = text,
               cd_summary = or_placeholder translatedSummary,
               cd_plain = or_placeholder translatedPlain,
               cd_risks = map (\<lambda>it. (item_level it, localTranslate (item_explain it) lang))
                            (items classification),
               cd_confidence =
                 (if overall classification = Danger then ''High risk detected''
                  else if overall classification = Warning then ''Some issues''
                  else ''Looks safe'')\<rparr>)"

text \<open>
  Two environments for worked examples. In the first the API is configured, the remote
  summary resolves and the remote explanation and translation are rejected. In the second
  no API is configured and the page has a selection.
\<close>

definition remote_partial :: remote where
  "remote_partial =
     \<lparr>summarizeText = (\<lambda>t. Inr ''REMOTE SUMMARY''),
      generateText = (\<lambda>p. Inl (RemoteFailure ''unavailable'')),
      translateText = (\<lambda>t l. Inl (RemoteFailure ''unavailable''))\<rparr>"

definition window_partial :: window where
  "window_partial =
     \<lparr>API_KEY = ''key'', contractDecoder_googleAI = True,
      googleAI = Some remote_partial, selection = []\<rparr>"

definition window_local :: window where
  "window_local =
     \<lparr>API_KEY = [], contractDecoder_googleAI = False,
      googleAI = None, selection = ''late fee''\<rparr>"

section \<open>Notions of the specification\<close>

text \<open>
  The words of the specification for the translator: replacing all occurrences of a literal
  phrase (from left to right, without overlap), a phrase occurring in a text, applying the
  phrase pairs in their order, and whether some pair found its phrase when its turn came.
\<close>

function replace_phrase :: "string \<Rightarrow> string \<Rightarrow> string \<Rightarrow> string" where
  "replace_phrase k v s =
     (if k \<noteq> [] \<and> prefix k s then v @ replace_phrase k v (drop (length k) s)
      else case s of [] \<Rightarrow> [] | x # xs \<Rightarrow> x # replace_phrase k v xs)"
  by pat_completeness auto
termination
proof (relation "measure (\<lambda>(k, v, s). length s)")
  show "wf (measure (\<lambda>(k, v, s). length s))" by simp
next
  fix k v s :: string
  assume "k \<noteq> [] \<and> prefix k s"
  then have "k \<noteq> []" and "length k \<le> length s"
    by (simp_all add: prefix_length_le)
  then have "length s - length k < length s"
    by (cases k; cases s) (simp_all add: less_Suc_eq_le)
  then show "((k, v, drop (length k) s), (k, v, s)) \<in> measure (\<lambda>(k, v, s). length s)"
    by simp
next
  fix k v s :: string and x xs
  assume "s = x # xs"
  then show "((k, v, xs), (k, v, s)) \<in> measure (\<lambda>(k, v, s). length s)"
    by simp
qed

declare replace_phrase.simps [simp del]

fun occurs :: "string \<Rightarrow> string \<Rightarrow> bool" where
  "occurs k [] = (k = [])"
| "occurs k (x # xs) = (prefix k (x # xs) \<or> occurs k xs)"

fun substitute_all :: "(string \<times> string) list \<Rightarrow> string \<Rightarrow> string" where
  "substitute_all [] t = t"
| "substitute_all ((k, v) # ps) t = substitute_all ps (replace_phrase k v t)"

fun substituted :: "(string \<times> string) list \<Rightarrow> string \<Rightarrow> bool" where
  "substituted [] t = False"
| "substituted ((k, v) # ps) t = (occurs k t \<or> substituted ps (replace_phrase k v t))"

text \<open>
  The words of the specification for the segmenter: every run of newlines becomes one
  space; the text is cut at each run of white space that comes right after one of the
  marks \<open>.\<close>, \<open>!\<close>, \<open>?\<close> (the flag says whether the character before is such a mark);
  the pieces are trimmed and the empty ones dropped.
\<close>

function collapse_newlines :: "string \<Rightarrow> string" where
  "collapse_newlines [] = []"
| "collapse_newlines (x # xs) =
     (if x = CHR 0x0A then CHR '' '' # collapse_newlines (dropWhile (\<lambda>c. c = CHR 0x0A) xs)
      else x # collapse_newlines xs)"
  by pat_completeness auto
termination
  by (relation "measure length") (auto simp: less_Suc_eq_le length_dropWhile_le)

definition prepend :: "string \<Rightarrow> string list \<Rightarrow> string list" where
  "prepend acc pieces = (case pieces of [] \<Rightarrow> [acc] | p # ps \<Rightarrow> (acc @ p) # ps)"

definition terminal_mark :: "char \<Rightarrow> bool" where
  "terminal_mark c \<longleftrightarrow> c = CHR ''.'' \<or> c = CHR ''!'' \<or> c = CHR ''?''"

function split_after_terminal :: "bool \<Rightarrow> string \<Rightarrow> string list" where
  "split_after_terminal after [] = [[]]"
| "split_after_terminal after (x # xs) =
     (if after \<and> is_space x then [] # split_after_terminal False (dropWhile is_space xs)
      else prepend [x] (split_after_terminal (terminal_mark x) xs))"
  by pat_completeness auto
termination
  by (relation "measure (\<lambda>(after, s). length s)")
     (auto simp: less_Suc_eq_le length_dropWhile_le)

definition sentences :: "string \<Rightarrow> string list" where
  "sentences text =
     filter (\<lambda>s. s \<noteq> []) (map trim (split_after_terminal False (collapse_newlines text)))"

text \<open>
  The words of the specification for the rewriter: the rules are applied one after the
  other, each to the outcome of the rules before it; then every run of two or more white
  space characters becomes one space and the text is trimmed. \<open>SPEC_MAP\<close> is the rule
  list with the patterns as the specification prints them.
\<close>

fun apply_rules :: "(rx \<times> string) list \<Rightarrow> string \<Rightarrow> string" where
  "apply_rules [] t = t"
| "apply_rules ((pat, repl) # rules) t = apply_rules rules (js_replace True pat repl t)"

function squeeze_spaces :: "string \<Rightarrow> string" where
  "squeeze_spaces [] = []"
| "squeeze_spaces [x] = [x]"
| "squeeze_spaces (x # y # ys) =
     (if is_space x \<and> is_space y then CHR '' '' # squeeze_spaces (dropWhile is_space ys)
      else x # squeeze_spaces (y # ys))"
  by pat_completeness auto
termination
  by (relation "measure length") (auto simp: less_Suc_eq_le le_SucI length_dropWhile_le)

definition space_pair :: "char \<Rightarrow> char \<Rightarrow> bool" where
  "space_pair x y \<longleftrightarrow> is_space x \<and> is_space y"

text \<open>A pattern enclosed in word boundaries: \<open>\b...\b\<close>.\<close>

definition word_bounded :: "rx \<Rightarrow> rx" where
  "word_bounded r = Seq WordB (Seq r WordB)"

definition rewrite_with :: "(rx \<times> string) list \<Rightarrow> string \<Rightarrow> string" where
  "rewrite_with rules text = trim (squeeze_spaces (apply_rules rules text))"

definition SPEC_MAP :: "(rx \<times> string) list" where
  "SPEC_MAP =
    [ (seqs [Lit ''you '', alts [Lit ''agree'', Lit ''acknowledge'', Lit ''consent''],
             Lit '' to''],
       ''you agree to''),
      (Lit ''hereby'', ''this means''),
      (Lit ''to the extent permitted by law'', ''if the law allows it''),
      (Lit ''in the event of'', ''if''),
      (seqs [Lit ''may '', Opt (Lit ''be ''), Lit ''liable for''], ''could be responsible for''),
      (seqs [Lit ''third'', Opt (One (Chars ''- '')), Lit ''party'',
             Opt (alts [Lit '' data'', Lit '' services'', Lit '' providers''])],
       ''other companies''),
      (seqs [Lit ''auto'', Opt (Lit ''-''), Lit ''renew'', Opt (Lit ''al'')],
       ''auto-renewal (automatic renewal of service or payment)''),
      (seqs [Lit ''terminate'', Opt (alts [Lit ''ion'', Lit ''ing''])], ''end/stop'') ]"

text \<open>
  Two notions for the proofs about cursors: the code unit before the cursor after a run has
  been read, and whether the code unit before a cursor is a terminal mark.
\<close>

fun last_or :: "char option \<Rightarrow> string \<Rightarrow> char option" where
  "last_or p [] = p"
| "last_or p (x # xs) = Some (last (x # xs))"

fun after_mark :: "char option \<Rightarrow> bool" where
  "after_mark None = False"
| "after_mark (Some p) = terminal_mark p"

section \<open>Evaluation\<close>

text \<open>The same two functions on the bits of a code unit, for evaluation.\<close>

lemma is_word_bits [code]:
  "is_word (Char b0 b1 b2 b3 b4 b5 b6 b7) \<longleftrightarrow>
     \<not> b7 \<and>
     ((b6 \<and> (b0 \<or> b1 \<or> b2 \<or> b3 \<or> b4) \<and> \<not> (b4 \<and> b3 \<and> (b2 \<or> (b1 \<and> b0))))
      \<or> (\<not> b6 \<and> b5 \<and> b4 \<and> (\<not> b3 \<or> (\<not> b2 \<and> \<not> b1)))
      \<or> (b6 \<and> \<not> b5 \<and> b4 \<and> b3 \<and> b2 \<and> b1 \<and> b0))"
  by (cases b0; cases b1; cases b2; cases b3; cases b4; cases b5; cases b6; cases b7;
      simp add: is_word_def)

lemma canon_bits [code]:
  "canon (Char b0 b1 b2 b3 b4 b5 b6 b7) =
     (if b5 \<and> b6 \<and> \<not> b7 \<and> (b0 \<or> b1 \<or> b2 \<or> b3 \<or> b4)
         \<and> \<not> (b4 \<and> b3 \<and> (b2 \<or> (b1 \<and> b0)))
      then Char b0 b1 b2 b3 b4 False b6 b7
      else Char b0 b1 b2 b3 b4 b5 b6 b7)"
  by (cases b0; cases b1; cases b2; cases b3; cases b4; cases b5; cases b6; cases b7;
      simp add: canon_def)


section \<open>Risk classifier: properties\<close>

lemma push_clauses_filter:
  "push_clauses cs text clauses =
     clauses @ map finding (filter (\<lambda>c. js_test True (rx c) text) cs)"
  by (induction cs arbitrary: clauses) simp_all

lemma distinct_keys: "distinct (map key checks)"
  by (simp add: checks_def)

lemma item_id_finding: "item_id (finding c) = key c"
  by (simp add: finding_def)

lemma items_localClassify:
  "items (localClassify text) =
     (if text = [] then [] else map finding (filter (\<lambda>c. js_test True (rx c) text) checks))"
  by (simp add: localClassify_def push_clauses_filter Let_def)

lemma distinct_item_ids: "distinct (map item_id (items (localClassify text)))"
proof -
  have "map item_id (map finding xs) = map key xs" for xs
    by (simp add: item_id_finding)
  moreover have "distinct (map key (filter P checks))" for P
    using distinct_keys by (rule distinct_map_filter)
  ultimately show ?thesis by (simp add: items_localClassify del: map_map)
qed

lemma length_filter_distinct_le1:
  "distinct (map f xs) \<Longrightarrow> length (filter (\<lambda>x. f x = c) xs) \<le> 1"
proof (induction xs)
  case Nil
  show ?case by simp
next
  case (Cons a xs)
  show ?case
  proof (cases "f a = c")
    case True
    with Cons.prems have "\<forall>x\<in>set xs. f x \<noteq> c" by (auto simp: image_iff)
    then have "filter (\<lambda>x. f x = c) xs = []" by (simp add: filter_empty_conv)
    with True show ?thesis by simp
  next
    case False
    with Cons show ?thesis by simp
  qed
qed

lemma localClassify_nonempty:
  "text \<noteq> [] \<Longrightarrow>
   localClassify text =
     \<lparr>overall = (if list_ex (\<lambda>c. item_level c = Danger) (push_clauses checks text [])
                  then Danger
                  else if length (push_clauses checks text []) \<noteq> 0 then Warning
                  else Safe),
      items = push_clauses checks text []\<rparr>"
  unfolding localClassify_def Let_def by (simp only: if_False)

lemma inj_on_finding: "inj_on finding (set checks)"
proof (intro inj_onI)
  fix x y
  assume x: "x \<in> set checks" and y: "y \<in> set checks" and e: "finding x = finding y"
  have k: "inj_on key (set checks)"
    using distinct_keys by (simp add: distinct_map)
  from e have "item_id (finding x) = item_id (finding y)" by simp
  then have "key x = key y" by (simp add: item_id_finding)
  with k x y show "x = y" by (auto dest: inj_onD)
qed

lemma items_explicit:
  "items (localClassify text) =
     (if text = [] then []
      else
        (if js_test True (alts [seqs [Lit ''auto'', Opt (Lit ''-''), Lit ''renew''], Lit ''renewal''])
              text
         then [\<lparr>item_id = ''auto-renew'', item_level = Danger,
                item_explain = ''Automatic renewal or subscription renewal clause''\<rparr>]
         else [])
        @ (if js_test True (alts [Lit ''fee'', Lit ''charge'', Lit ''cost'', Lit ''billing'']) text
           then [\<lparr>item_id = ''fees'', item_level = Warning,
                  item_explain = ''Mentions fees, charges or billing terms''\<rparr>]
           else [])
        @ (if js_test True
                (alts [Lit ''share your data'',
                       seqs [Lit ''third'', Opt (One (Chars ''- '')), Lit ''party''],
                       Lit ''personal data'', Lit ''process personal data''])
                text
           then [\<lparr>item_id = ''data-sharing'', item_level = Warning,
                  item_explain = ''Mentions sharing or processing of personal data''\<rparr>]
           else [])
        @ (if js_test True
                (alts [Lit ''waive'', Lit ''waiver'', Lit ''limit liability'',
                       Lit ''limitation of liability''])
                text
           then [\<lparr>item_id = ''waiver'', item_level = Danger,
                  item_explain = ''Limits your ability to sue or reduces liability''\<rparr>]
           else [])
        @ (if js_test True
                (alts [Lit ''arbitration'', Lit ''dispute resolution'',
                       Lit ''class action waiver''])
                text
           then [\<lparr>item_id = ''dispute'', item_level = Warning,
                  item_explain = ''Requires arbitration or limits dispute options''\<rparr>]
           else []))"
  by (simp add: items_localClassify checks_def finding_def del: alts.simps seqs.simps)

lemma items_from_checks:
  assumes "i \<in> set (items (localClassify text))"
  shows "\<exists>c \<in> set checks. item_id i = key c \<and> item_level i = level c
           \<and> item_explain i = explain c \<and> js_test True (rx c) text"
proof (cases "text = []")
  case True
  with assms show ?thesis by (simp add: items_localClassify)
next
  case False
  with assms have "i \<in> finding ` set (filter (\<lambda>c. js_test True (rx c) text) checks)"
    by (simp only: items_localClassify if_False set_map)
  then obtain c where c: "c \<in> set (filter (\<lambda>c. js_test True (rx c) text) checks)"
    and i: "i = finding c"
    by (rule imageE)
  from c have "c \<in> set checks" and "js_test True (rx c) text" by simp_all
  moreover from i have "item_id i = key c" "item_level i = level c" "item_explain i = explain c"
    by (simp_all add: finding_def)
  ultimately show ?thesis by blast
qed

text \<open>
  Claim C4. For every text, the findings of \<open>localClassify\<close> are, in this order, the
  finding \<open>auto-renew\<close> (danger), \<open>fees\<close> (warning), \<open>data-sharing\<close> (warning), \<open>waiver\<close>
  (danger) and \<open>dispute\<close> (warning), each with its fixed explanation and each present
  exactly when the pattern of its category is found in the (non-empty) text, however often
  it is found: there is at most one finding for each category id, and every finding has
  the id, severity and explanation of a check whose pattern is found. The overall severity
  is \<open>danger\<close> if some finding is \<open>danger\<close>, else \<open>warning\<close> if there is a finding, else
  \<open>safe\<close>.
\<close>

theorem localClassify_findings:
  "items (localClassify text) =
      (if text = [] then []
       else
         (if js_test True (alts [seqs [Lit ''auto'', Opt (Lit ''-''), Lit ''renew''], Lit ''renewal''])
               text
          then [\<lparr>item_id = ''auto-renew'', item_level = Danger,
                 item_explain = ''Automatic renewal or subscription renewal clause''\<rparr>]
          else [])
         @ (if js_test True (alts [Lit ''fee'', Lit ''charge'', Lit ''cost'', Lit ''billing'']) text
            then [\<lparr>item_id = ''fees'', item_level = Warning,
                   item_explain = ''Mentions fees, charges or billing terms''\<rparr>]
            else [])
         @ (if js_test True
                 (alts [Lit ''share your data'',
                        seqs [Lit ''third'', Opt (One (Chars ''- '')), Lit ''party''],
                        Lit ''personal data'', Lit ''process personal data''])
                 text
            then [\<lparr>item_id = ''data-sharing'', item_level = Warning,
                   item_explain = ''Mentions sharing or processing of personal data''\<rparr>]
            else [])
         @ (if js_test True
                 (alts [Lit ''waive'', Lit ''waiver'', Lit ''limit liability'',
                        Lit ''limitation of liability''])
                 text
            then [\<lparr>item_id = ''waiver'', item_level = Danger,
                   item_explain = ''Limits your ability to sue or reduces liability''\<rparr>]
            else [])
         @ (if js_test True
                 (alts [Lit ''arbitration'', Lit ''dispute resolution'',
                        Lit ''class action waiver''])
                 text
            then [\<lparr>item_id = ''dispute'', item_level = Warning,
                   item_explain = ''Requires arbitration or limits dispute options''\<rparr>]
            else []))
   \<and> length (filter (\<lambda>i. item_id i = c) (items (localClassify text))) \<le> 1
   \<and> (\<forall>i \<in> set (items (localClassify text)).
         \<exists>c \<in> set checks. item_id i = key c \<and> item_level i = level c
           \<and> item_explain i = explain c \<and> js_test True (rx c) text)
   \<and> set (items (localClassify text)) \<subseteq> set (map finding checks)
   \<and> length checks = 5
   \<and> (text \<noteq> [] \<longrightarrow> (\<forall>c \<in> set checks.
          finding c \<in> set (items (localClassify text)) \<longleftrightarrow> js_test True (rx c) text))
   \<and> overall (localClassify text) =
       (if \<exists>i \<in> set (items (localClassify text)). item_level i = Danger then Danger
        else if items (localClassify text) \<noteq> [] then Warning
        else Safe)"
proof (intro conjI)
  show "items (localClassify text) =
      (if text = [] then []
       else
         (if js_test True (alts [seqs [Lit ''auto'', Opt (Lit ''-''), Lit ''renew''], Lit ''renewal''])
               text
          then [\<lparr>item_id = ''auto-renew'', item_level = Danger,
                 item_explain = ''Automatic renewal or subscription renewal clause''\<rparr>]
          else [])
         @ (if js_test True (alts [Lit ''fee'', Lit ''charge'', Lit ''cost'', Lit ''billing'']) text
            then [\<lparr>item_id = ''fees'', item_level = Warning,
                   item_explain = ''Mentions fees, charges or billing terms''\<rparr>]
            else [])
         @ (if js_test True
                 (alts [Lit ''share your data'',
                        seqs [Lit ''third'', Opt (One (Chars ''- '')), Lit ''party''],
                        Lit ''personal data'', Lit ''process personal data''])
                 text
            then [\<lparr>item_id = ''data-sharing'', item_level = Warning,
                   item_explain = ''Mentions sharing or processing of personal data''\<rparr>]
            else [])
         @ (if js_test True
                 (alts [Lit ''waive'', Lit ''waiver'', Lit ''limit liability'',
                        Lit ''limitation of liability''])
                 text
            then [\<lparr>item_id = ''waiver'', item_level = Danger,
                   item_explain = ''Limits your ability to sue or reduces liability''\<rparr>]
            else [])
         @ (if js_test True
                 (alts [Lit ''arbitration'', Lit ''dispute resolution'',
                        Lit ''class action waiver''])
                 text
            then [\<lparr>item_id = ''dispute'', item_level = Warning,
                   item_explain = ''Requires arbitration or limits dispute options''\<rparr>]
            else []))"
    by (rule items_explicit)
  show "length (filter (\<lambda>i. item_id i = c) (items (localClassify text))) \<le> 1"
    using distinct_item_ids by (rule length_filter_distinct_le1)
  show "\<forall>i \<in> set (items (localClassify text)).
         \<exists>c \<in> set checks. item_id i = key c \<and> item_level i = level c
           \<and> item_explain i = explain c \<and> js_test True (rx c) text"
    by (intro ballI items_from_checks)
  show "set (items (localClassify text)) \<subseteq> set (map finding checks)"
  proof (cases "text = []")
    case True
    then show ?thesis by (simp add: items_localClassify)
  next
    case False
    have "set (filter (\<lambda>c. js_test True (rx c) text) checks) \<subseteq> set checks"
      by (rule filter_is_subset)
    then have "finding ` set (filter (\<lambda>c. js_test True (rx c) text) checks)
               \<subseteq> finding ` set checks"
      by (rule image_mono)
    with False show ?thesis by (simp only: items_localClassify if_False set_map)
  qed
  show "length checks = 5" by (simp add: checks_def)
  show "text \<noteq> [] \<longrightarrow> (\<forall>c \<in> set checks.
          finding c \<in> set (items (localClassify text)) \<longleftrightarrow> js_test True (rx c) text)"
  proof (intro impI ballI)
    fix c assume t: "text \<noteq> []" and c: "c \<in> set checks"
    let ?P = "\<lambda>c. js_test True (rx c) text"
    have i: "set (items (localClassify text)) = finding ` set (filter ?P checks)"
      using t by (simp only: items_localClassify if_False set_map)
    show "finding c \<in> set (items (localClassify text)) \<longleftrightarrow> js_test True (rx c) text"
    proof
      assume "finding c \<in> set (items (localClassify text))"
      then obtain x where x: "x \<in> set (filter ?P checks)" and e: "finding c = finding x"
        unfolding i by (rule imageE)
      from x have xc: "x \<in> set checks" and px: "?P x" by simp_all
      from inj_on_finding e c xc have "c = x" by (rule inj_onD)
      with px show "?P c" by simp
    next
      assume "?P c"
      with c have "c \<in> set (filter ?P checks)" by simp
      then show "finding c \<in> set (items (localClassify text))"
        unfolding i by (rule imageI)
    qed
  qed
  show "overall (localClassify text) =
       (if \<exists>i \<in> set (items (localClassify text)). item_level i = Danger then Danger
        else if items (localClassify text) \<noteq> [] then Warning
        else Safe)"
  proof (cases "text = []")
    case True
    then show ?thesis by (simp add: localClassify_def)
  next
    case False
    show ?thesis
      unfolding localClassify_nonempty [OF False] by (simp add: list_ex_iff)
  qed
qed

theorem localClassify_findings_witness:
  "''late fee'' \<noteq> []
   \<and> items (localClassify ''late fee'') =
       [\<lparr>item_id = ''fees'', item_level = Warning,
         item_explain = ''Mentions fees, charges or billing terms''\<rparr>]
   \<and> length (filter (\<lambda>i. item_id i = ''fees'') (items (localClassify ''late fee''))) \<le> 1
   \<and> overall (localClassify ''late fee'') = Warning
   \<and> items (localClassify ''Auto-Renew fee, fee'') =
       [\<lparr>item_id = ''auto-renew'', item_level = Danger,
         item_explain = ''Automatic renewal or subscription renewal clause''\<rparr>,
        \<lparr>item_id = ''fees'', item_level = Warning,
         item_explain = ''Mentions fees, charges or billing terms''\<rparr>]
   \<and> overall (localClassify ''Auto-Renew fee, fee'') = Danger"
proof -
  have t1: "js_test True (alts [seqs [Lit ''auto'', Opt (Lit ''-''), Lit ''renew''],
                                 Lit ''renewal'']) ''late fee'' = False"
    and t2: "js_test True (alts [Lit ''fee'', Lit ''charge'', Lit ''cost'', Lit ''billing''])
               ''late fee'' = True"
    and t3: "js_test True
                (alts [Lit ''share your data'',
                       seqs [Lit ''third'', Opt (One (Chars ''- '')), Lit ''party''],
                       Lit ''personal data'', Lit ''process personal data''])
                ''late fee'' = False"
    and t4: "js_test True
                (alts [Lit ''waive'', Lit ''waiver'', Lit ''limit liability'',
                       Lit ''limitation of liability''])
                ''late fee'' = False"
    and t5: "js_test True
                (alts [Lit ''arbitration'', Lit ''dispute resolution'',
                       Lit ''class action waiver''])
                ''late fee'' = False"
    by code_simp+
  have u1: "js_test True (alts [seqs [Lit ''auto'', Opt (Lit ''-''), Lit ''renew''],
                                 Lit ''renewal'']) ''Auto-Renew fee, fee'' = True"
    and u2: "js_test True (alts [Lit ''fee'', Lit ''charge'', Lit ''cost'', Lit ''billing''])
               ''Auto-Renew fee, fee'' = True"
    and u3: "js_test True
                (alts [Lit ''share your data'',
                       seqs [Lit ''third'', Opt (One (Chars ''- '')), Lit ''party''],
                       Lit ''personal data'', Lit ''process personal data''])
                ''Auto-Renew fee, fee'' = False"
    and u4: "js_test True
                (alts [Lit ''waive'', Lit ''waiver'', Lit ''limit liability'',
                       Lit ''limitation of liability''])
                ''Auto-Renew fee, fee'' = False"
    and u5: "js_test True
                (alts [Lit ''arbitration'', Lit ''dispute resolution'',
                       Lit ''class action waiver''])
                ''Auto-Renew fee, fee'' = False"
    by code_simp+
  have e1: "items (localClassify ''late fee'') =
       [\<lparr>item_id = ''fees'', item_level = Warning,
         item_explain = ''Mentions fees, charges or billing terms''\<rparr>]"
    using localClassify_findings [of "''late fee''" "''fees''"]
    by (simp only: t1 t2 t3 t4 t5 if_True if_False append_Nil append_Nil2) simp
  have e2: "items (localClassify ''Auto-Renew fee, fee'') =
       [\<lparr>item_id = ''auto-renew'', item_level = Danger,
         item_explain = ''Automatic renewal or subscription renewal clause''\<rparr>,
        \<lparr>item_id = ''fees'', item_level = Warning,
         item_explain = ''Mentions fees, charges or billing terms''\<rparr>]"
    using localClassify_findings [of "''Auto-Renew fee, fee''" "''fees''"]
    by (simp only: u1 u2 u3 u4 u5 if_True if_False append_Nil append_Nil2) simp
  have o1: "overall (localClassify ''late fee'') = Warning"
    using localClassify_findings [of "''late fee''" "''fees''"] by (simp add: e1)
  have o2: "overall (localClassify ''Auto-Renew fee, fee'') = Danger"
    using localClassify_findings [of "''Auto-Renew fee, fee''" "''fees''"] by (simp add: e2)
  show ?thesis
    by (simp add: e1 e2 o1 o2)
qed

text \<open>
  Claim C9. Classifying the empty string gives the overall severity \<open>safe\<close> and no
  findings.
\<close>

theorem localClassify_empty: "localClassify [] = \<lparr>overall = Safe, items = []\<rparr>"
  by (simp add: localClassify_def)

section \<open>Phrase translator: properties\<close>

lemma lit_match_prefix:
  "lit_match False k (prev, s) =
     (if prefix k s then Some (if k = [] then prev else Some (last k), drop (length k) s)
      else None)"
proof (induction k arbitrary: prev s)
  case Nil
  show ?case by simp
next
  case (Cons p ps)
  show ?case
  proof (cases s)
    case Nil
    then show ?thesis by simp
  next
    case (Cons x xs)
    then show ?thesis
      using Cons.IH [of "Some x" xs] by (simp add: same_char_def)
  qed
qed

lemma exec_RegExp:
  "rx_exec_at False (RegExp k) (prev, s) =
     (if prefix k s then Some (if k = [] then prev else Some (last k), drop (length k) s)
      else None)"
  by (simp add: rx_exec_at_def RegExp_def lit_match_prefix)

lemma drop_prefix_shorter:
  "k \<noteq> [] \<Longrightarrow> prefix k s \<Longrightarrow> length s - length k < length s"
  by (auto simp: prefix_def)

lemma replace_from_RegExp:
  "k \<noteq> [] \<Longrightarrow>
   replace_from False (RegExp k) v (prev, s) =
     (if prefix k s then v @ replace_from False (RegExp k) v (Some (last k), drop (length k) s)
      else case s of [] \<Rightarrow> []
           | x # xs \<Rightarrow> x # replace_from False (RegExp k) v (Some x, xs))"
proof (cases "prefix k s")
  case True
  assume "k \<noteq> []"
  with True have "length s - length k < length s" by (intro drop_prefix_shorter)
  with True \<open>k \<noteq> []\<close> show ?thesis
    by (subst replace_from.simps) (simp add: exec_RegExp)
next
  case False
  then show ?thesis
    by (subst replace_from.simps) (simp add: exec_RegExp)
qed

lemma replace_from_phrase:
  "k \<noteq> [] \<Longrightarrow> replace_from False (RegExp k) v (prev, s) = replace_phrase k v s"
proof (induction k v s arbitrary: prev rule: replace_phrase.induct)
  case (1 k v s)
  show ?case
  proof (cases "prefix k s")
    case True
    with "1.prems" "1.IH"(1) [of "Some (last k)"] show ?thesis
      by (subst replace_from_RegExp, simp, subst replace_phrase.simps, simp)
  next
    case False
    show ?thesis
    proof (cases s)
      case Nil
      with False "1.prems" show ?thesis
        by (subst replace_from_RegExp, simp, subst replace_phrase.simps, simp)
    next
      case (Cons x xs)
      with False "1.prems" "1.IH"(2) [of x xs "Some x"] show ?thesis
        by (subst replace_from_RegExp, simp, subst replace_phrase.simps, simp)
    qed
  qed
qed

lemma fold_replace_substitute_all:
  "\<forall>(k, v) \<in> set ps. k \<noteq> [] \<Longrightarrow>
   fold (\<lambda>(k, v) out. js_replace False (RegExp k) v out) ps t = substitute_all ps t"
  by (induction ps arbitrary: t) (auto simp: js_replace_def replace_from_phrase)

lemma replace_phrase_Nil: "replace_phrase k v [] = []"
  by (subst replace_phrase.simps) simp

lemma replace_phrase_prefix:
  "k \<noteq> [] \<Longrightarrow> replace_phrase k v (k @ r) = v @ replace_phrase k v r"
  by (subst replace_phrase.simps) simp

lemma replace_phrase_Cons:
  "\<not> (k \<noteq> [] \<and> prefix k (x # xs)) \<Longrightarrow>
   replace_phrase k v (x # xs) = x # replace_phrase k v xs"
  by (subst replace_phrase.simps) auto

lemma replace_phrase_absent: "\<not> occurs k s \<Longrightarrow> replace_phrase k v s = s"
proof (induction s)
  case Nil
  show ?case by (rule replace_phrase_Nil)
next
  case (Cons x xs)
  then show ?case by (simp add: replace_phrase_Cons)
qed

lemma substitute_all_absent: "\<not> substituted ps t \<Longrightarrow> substitute_all ps t = t"
  by (induction ps t rule: substituted.induct) (auto simp: replace_phrase_absent)

lemma count_replace_phrase_le:
  "count_list k c \<le> count_list v c \<Longrightarrow> count_list s c \<le> count_list (replace_phrase k v s) c"
proof (induction k v s rule: replace_phrase.induct)
  case (1 k v s)
  show ?case
  proof (cases "k \<noteq> [] \<and> prefix k s")
    case True
    then obtain r where s: "s = k @ r" by (auto simp: prefix_def)
    with True "1.IH"(1) "1.prems" show ?thesis
      by (simp add: replace_phrase_prefix)
  next
    case False
    show ?thesis
    proof (cases s)
      case Nil
      then show ?thesis by (simp add: replace_phrase_Nil)
    next
      case (Cons x xs)
      with False "1.IH"(2) [of x xs] "1.prems" show ?thesis
        by (simp add: replace_phrase_Cons)
    qed
  qed
qed

lemma count_replace_phrase_less:
  "k \<noteq> [] \<Longrightarrow> count_list k c < count_list v c \<Longrightarrow> occurs k s \<Longrightarrow>
   count_list s c < count_list (replace_phrase k v s) c"
proof (induction s)
  case Nil
  then show ?case by simp
next
  case (Cons x xs)
  show ?case
  proof (cases "prefix k (x # xs)")
    case True
    then obtain r where s: "x # xs = k @ r" by (auto simp: prefix_def)
    have "count_list r c \<le> count_list (replace_phrase k v r) c"
      using Cons.prems(2) by (intro count_replace_phrase_le) simp
    with Cons.prems show ?thesis
      unfolding s by (simp add: replace_phrase_prefix)
  next
    case False
    with Cons show ?thesis
      by (simp add: replace_phrase_Cons)
  qed
qed

lemma count_substitute_all:
  "\<forall>(k, v) \<in> set ps. k \<noteq> [] \<and> count_list k c < count_list v c \<Longrightarrow>
   count_list t c \<le> count_list (substitute_all ps t) c
   \<and> (substituted ps t \<longrightarrow> count_list t c < count_list (substitute_all ps t) c)"
proof (induction ps t rule: substituted.induct)
  case (1 t)
  show ?case by simp
next
  case (2 k v ps t)
  then have kv: "k \<noteq> []" "count_list k c < count_list v c" by auto
  from 2 have IH: "count_list (replace_phrase k v t) c \<le> count_list (substitute_all ps (replace_phrase k v t)) c"
    "substituted ps (replace_phrase k v t) \<Longrightarrow>
      count_list (replace_phrase k v t) c < count_list (substitute_all ps (replace_phrase k v t)) c"
    by auto
  have le: "count_list t c \<le> count_list (replace_phrase k v t) c"
    using kv by (intro count_replace_phrase_le) simp
  have lt: "occurs k t \<Longrightarrow> count_list t c < count_list (replace_phrase k v t) c"
    using kv by (intro count_replace_phrase_less)
  show ?case using IH le lt by (auto simp del: replace_phrase.simps)
qed

lemma es_phrases_literal:
  "\<forall>(k, v) \<in> set es_phrases. (\<forall>c \<in> set k. \<not> pattern_special c) \<and> CHR ''$'' \<notin> set v"
  by (simp add: es_phrases_def pattern_special_def)

lemma entries_keys:
  "\<forall>(k, v) \<in> set (entries lang). k \<noteq> [] \<and> count_list k (CHR ''d'') < count_list v (CHR ''d'')"
  by (simp add: entries_def TRANSLATIONS_def es_phrases_def)

text \<open>
  Claim C5, amended. For every non-empty text and every target language other than \<open>en\<close>,
  \<open>localTranslate\<close> replaces all occurrences of each phrase registered for the language,
  read as a case-sensitive literal, by its translation, pair after pair; the translation
  note is appended exactly when the outcome equals the input. If some pair found its phrase
  the outcome differs from the input and carries no note; if none did, the result is the
  input followed by the note. A language without registered phrases leaves the text
  unchanged and appends the note. (The empty text is returned as it is, without a note.)
\<close>

theorem localTranslate_substitution:
  assumes "text \<noteq> []" and "lang \<noteq> ''en''"
  shows "localTranslate text lang =
           substitute_all (entries lang) text
           @ (if substitute_all (entries lang) text = text then translated_note lang else [])
         \<and> (substituted (entries lang) text \<longrightarrow>
               substitute_all (entries lang) text \<noteq> text
               \<and> localTranslate text lang = substitute_all (entries lang) text)
         \<and> (\<not> substituted (entries lang) text \<longrightarrow>
               localTranslate text lang = text @ translated_note lang)
         \<and> (TRANSLATIONS lang = None \<longrightarrow>
               localTranslate text lang = text @ translated_note lang)"
proof -
  let ?out = "substitute_all (entries lang) text"
  have keys: "\<forall>(k, v) \<in> set (entries lang). k \<noteq> []"
    using entries_keys [of lang] by auto
  have out: "fold (\<lambda>(k, v) out. js_replace False (RegExp k) v out) (entries lang) text = ?out"
    using keys by (rule fold_replace_substitute_all)
  have res: "localTranslate text lang = ?out @ (if ?out = text then translated_note lang else [])"
    using assms by (simp add: localTranslate_def out Let_def)
  have changed: "?out \<noteq> text" if "substituted (entries lang) text"
  proof
    assume "?out = text"
    moreover have "count_list text (CHR ''d'') < count_list ?out (CHR ''d'')"
      using count_substitute_all [where ps = "entries lang" and t = "text", OF entries_keys] that
      by simp
    ultimately show False by simp
  qed
  have same: "?out = text" if "\<not> substituted (entries lang) text"
    using that by (rule substitute_all_absent)
  have unknown: "\<not> substituted (entries lang) text" if "TRANSLATIONS lang = None"
    using that by (simp add: entries_def)
  show ?thesis
    using res changed same unknown by auto
qed

theorem localTranslate_substitution_witness:
  "''a. Requires arbitration or limits dispute options'' \<noteq> [] \<and> ''es'' \<noteq> ''en''
   \<and> substituted (entries ''es'') ''a. Requires arbitration or limits dispute options''
   \<and> localTranslate ''a. Requires arbitration or limits dispute options'' ''es''
       = ''a. Requiere arbitraje o limita las opciones de disputa''
   \<and> \<not> substituted (entries ''es'') ''hello''
   \<and> localTranslate ''hello'' ''es'' = ''hello'' @ translated_note ''es''
   \<and> TRANSLATIONS ''fr'' = None
   \<and> localTranslate ''hello'' ''fr'' = ''hello'' @ translated_note ''fr''"
proof -
  let ?X = "''a. Requires arbitration or limits dispute options''"
  have n1: "?X \<noteq> []" and n2: "''hello'' \<noteq> []"
    and l1: "''es'' \<noteq> ''en''" and l2: "''fr'' \<noteq> ''en''"
    by simp_all
  have s1: "substituted (entries ''es'') ?X"
    by code_simp
  have o1: "substitute_all (entries ''es'') ?X
            = ''a. Requiere arbitraje o limita las opciones de disputa''"
    by code_simp
  have s2: "\<not> substituted (entries ''es'') ''hello''"
    by code_simp
  have t3: "TRANSLATIONS ''fr'' = None"
    by (simp add: TRANSLATIONS_def)
  have r1: "localTranslate ?X ''es'' = substitute_all (entries ''es'') ?X"
    using localTranslate_substitution [OF n1 l1] s1 by blast
  have r2: "localTranslate ''hello'' ''es'' = ''hello'' @ translated_note ''es''"
    using localTranslate_substitution [OF n2 l1] s2 by blast
  have r3: "localTranslate ''hello'' ''fr'' = ''hello'' @ translated_note ''fr''"
    using localTranslate_substitution [OF n2 l2] t3 by blast
  show ?thesis
    using n1 l1 s1 r1 [unfolded o1] s2 r2 t3 r3 by blast
qed

text \<open>
  The claim as stated fails at the empty text: no phrase is found and the outcome equals
  the input, for a registered and for an unknown language alike, but no note is appended.
\<close>

theorem localTranslate_marker_counterexample:
  "\<not> substituted (entries ''es'') []
   \<and> localTranslate [] ''es'' = []
   \<and> localTranslate [] ''es'' \<noteq> [] @ translated_note ''es''
   \<and> TRANSLATIONS ''fr'' = None
   \<and> localTranslate [] ''fr'' \<noteq> [] @ translated_note ''fr''"
  by code_simp

text \<open>
  Claim C7. Translation to the default language \<open>en\<close> is the identity: for every string
  \<open>x\<close>, \<open>localTranslate x ''en''\<close> is \<open>x\<close>.
\<close>

theorem localTranslate_en: "localTranslate x ''en'' = x"
  by (simp add: localTranslate_def)

text \<open>
  Claim C10. For the empty string and every target language, \<open>localTranslate\<close> returns the
  empty string: no translation note is appended.
\<close>

theorem localTranslate_empty: "localTranslate [] lang = []"
  by (simp add: localTranslate_def)

section \<open>Extractive summarizer: properties\<close>

lemma splitSentences_Nil: "splitSentences [] = []"
  by code_simp

lemma rank_len: "x \<in> set (rank s) \<Longrightarrow> len x = length (sent x)"
  by (auto simp: rank_def)

lemma map_sent_pairs: "map sent (map (\<lambda>sent. \<lparr>sent = sent, len = length sent\<rparr>) s) = s"
  by (induction s) simp_all

lemma mset_rank: "mset (map sent (rank s)) = mset s"
proof -
  have "mset (rank s) = mset (map (\<lambda>sent. \<lparr>sent = sent, len = length sent\<rparr>) s)"
    by (simp add: rank_def)
  then have "image_mset sent (mset (rank s)) =
             image_mset sent (mset (map (\<lambda>sent. \<lparr>sent = sent, len = length sent\<rparr>) s))"
    by simp
  then have "mset (map sent (rank s)) =
             mset (map sent (map (\<lambda>sent. \<lparr>sent = sent, len = length sent\<rparr>) s))"
    by (simp only: mset_map)
  then show ?thesis by (simp only: map_sent_pairs)
qed

lemma sorted_rank: "sorted_wrt (\<lambda>a b. length b \<le> length a) (map sent (rank s))"
proof -
  have "sorted (map (\<lambda>r. - int (len r)) (rank s))"
    unfolding rank_def by (rule sorted_sort_key)
  then have "sorted_wrt (\<lambda>a b. - int (len a) \<le> - int (len b)) (rank s)"
    by (simp add: sorted_map)
  then have "sorted_wrt (\<lambda>a b. length (sent b) \<le> length (sent a)) (rank s)"
    by (rule sorted_wrt_mono_rel [rotated]) (simp add: rank_len)
  then show ?thesis by (simp add: sorted_wrt_map)
qed

lemma stable_rank:
  "filter (\<lambda>x. length x = n) (map sent (rank s)) = filter (\<lambda>x. length x = n) s"
proof -
  let ?mk = "\<lambda>sent. \<lparr>sent = sent, len = length sent\<rparr>"
  have "filter (\<lambda>x. length x = n) (map sent (rank s))
        = map sent (filter (\<lambda>x. length (sent x) = n) (rank s))"
    by (simp add: filter_map o_def)
  also have "filter (\<lambda>x. length (sent x) = n) (rank s)
        = filter (\<lambda>x. - int (len x) = - int n) (rank s)"
    by (rule filter_cong) (auto simp: rank_len)
  also have "\<dots> = filter (\<lambda>x. - int (len x) = - int n) (map ?mk s)"
    unfolding rank_def by (rule sort_key_stable)
  also have "map sent \<dots> = filter (\<lambda>x. length x = n) s"
    by (induction s) simp_all
  finally show ?thesis .
qed

text \<open>
  Claim C1. For every text \<open>T\<close>, with \<open>maxSentences = 3\<close>: if the segmenter gives at most
  three sentences, \<open>localSummarize\<close> returns them joined by one space, in their order; if
  it gives more, the result is the first three sentences of a ranking \<open>r\<close> joined by a blank
  line, where \<open>r\<close> is the sentence list rearranged by falling length with the sentences of
  equal length kept in their original order. The three are sentences of \<open>T\<close>, in the order
  of the ranking.
\<close>

theorem localSummarize_contract:
  "(length (splitSentences T) \<le> 3 \<longrightarrow> localSummarize T 3 = join '' '' (splitSentences T))
   \<and> (3 < length (splitSentences T) \<longrightarrow>
       (\<exists>r. mset r = mset (splitSentences T)
          \<and> sorted_wrt (\<lambda>a b. length b \<le> length a) r
          \<and> (\<forall>n. filter (\<lambda>x. length x = n) r = filter (\<lambda>x. length x = n) (splitSentences T))
          \<and> length (take 3 r) = 3
          \<and> set (take 3 r) \<subseteq> set (splitSentences T)
          \<and> localSummarize T 3 = join [CHR 0x0A, CHR 0x0A] (take 3 r)))"
proof (intro conjI impI)
  assume "length (splitSentences T) \<le> 3"
  then show "localSummarize T 3 = join '' '' (splitSentences T)"
    by (cases "T = []") (simp_all add: localSummarize_def splitSentences_Nil)
next
  let ?s = "splitSentences T"
  let ?r = "map sent (rank ?s)"
  assume long: "3 < length ?s"
  then have ne: "T \<noteq> []" by (auto simp: splitSentences_Nil)
  have m: "mset ?r = mset ?s" by (rule mset_rank)
  then have "length ?r = length ?s" by (rule mset_eq_length)
  with long have l3: "length (take 3 ?r) = 3" by simp
  have "set (take 3 ?r) \<subseteq> set ?r" by (rule set_take_subset)
  also have "set ?r = set ?s" using m by (rule mset_eq_setD)
  finally have sub: "set (take 3 ?r) \<subseteq> set ?s" .
  have res: "localSummarize T 3 = join [CHR 0x0A, CHR 0x0A] (take 3 ?r)"
    using long ne by (simp add: localSummarize_def rank_def Let_def take_map)
  show "\<exists>r. mset r = mset ?s
          \<and> sorted_wrt (\<lambda>a b. length b \<le> length a) r
          \<and> (\<forall>n. filter (\<lambda>x. length x = n) r = filter (\<lambda>x. length x = n) ?s)
          \<and> length (take 3 r) = 3
          \<and> set (take 3 r) \<subseteq> set ?s
          \<and> localSummarize T 3 = join [CHR 0x0A, CHR 0x0A] (take 3 r)"
    using m sorted_rank stable_rank l3 sub res by blast
qed

theorem localSummarize_contract_witness:
  "3 < length (splitSentences ''a. bb. c. dd.'')
   \<and> (\<exists>r. mset r = mset (splitSentences ''a. bb. c. dd.'')
          \<and> sorted_wrt (\<lambda>a b. length b \<le> length a) r
          \<and> localSummarize ''a. bb. c. dd.'' 3 = join [CHR 0x0A, CHR 0x0A] (take 3 r))
   \<and> localSummarize ''a. bb. c. dd.'' 3 = ''bb.'' @ [CHR 0x0A, CHR 0x0A] @ ''dd.'' @ [CHR 0x0A, CHR 0x0A] @ ''a.''
   \<and> length (splitSentences ''a. b.'') \<le> 3
   \<and> localSummarize ''a. b.'' 3 = ''a. b.''"
proof -
  have e1: "splitSentences ''a. bb. c. dd.'' = [''a.'', ''bb.'', ''c.'', ''dd.'']"
    by code_simp
  have e2: "splitSentences ''a. b.'' = [''a.'', ''b.'']"
    by code_simp
  have e3: "localSummarize ''a. bb. c. dd.'' 3 = ''bb.'' @ [CHR 0x0A, CHR 0x0A] @ ''dd.'' @ [CHR 0x0A, CHR 0x0A] @ ''a.''"
    by code_simp
  show ?thesis
    using localSummarize_contract [of "''a. bb. c. dd.''"] localSummarize_contract [of "''a. b.''"]
    unfolding e1 e2 e3 by auto
qed


section \<open>Sentence segmenter: properties\<close>

lemma rep_matches_0:
  "\<exists>rest. rep_matches ic c 0 (prev, s) =
     (last_or prev (takeWhile (in_cset ic c) s), dropWhile (in_cset ic c) s) # rest"
proof (induction s arbitrary: prev)
  case Nil
  show ?case by simp
next
  case (Cons x xs)
  show ?case
  proof (cases "in_cset ic c x")
    case True
    from Cons [of "Some x"] obtain rest where
      "rep_matches ic c 0 (Some x, xs) =
         (last_or (Some x) (takeWhile (in_cset ic c) xs), dropWhile (in_cset ic c) xs) # rest"
      by blast
    with True show ?thesis by (cases "takeWhile (in_cset ic c) xs") auto
  next
    case False
    then show ?thesis by simp
  qed
qed

lemma exec_Rep1:
  "rx_exec_at ic (Rep (Suc 0) c) (prev, s) =
     (case s of [] \<Rightarrow> None
      | x # xs \<Rightarrow> if in_cset ic c x
                 then Some (last_or (Some x) (takeWhile (in_cset ic c) xs),
                            dropWhile (in_cset ic c) xs)
                 else None)"
proof (cases s)
  case Nil
  then show ?thesis by (simp add: rx_exec_at_def)
next
  case (Cons x xs)
  obtain rest where "rep_matches ic c 0 (Some x, xs) =
         (last_or (Some x) (takeWhile (in_cset ic c) xs), dropWhile (in_cset ic c) xs) # rest"
    using rep_matches_0 by blast
  with Cons show ?thesis by (simp add: rx_exec_at_def)
qed

lemma replace_NEWLINES_collapse:
  "replace_from False NEWLINES '' '' (prev, s) = collapse_newlines s"
proof (induction s arbitrary: prev rule: collapse_newlines.induct)
  case 1
  show ?case by (subst replace_from.simps) (simp add: NEWLINES_def exec_Rep1)
next
  case (2 x xs)
  have le: "length (dropWhile (\<lambda>c. c = CHR 0x0A) xs) < Suc (length xs)"
    by (simp add: less_Suc_eq_le length_dropWhile_le)
  have eq: "in_cset False (Chars [CHR 0x0A]) = (\<lambda>c. c = CHR 0x0A)"
    by (auto simp: same_char_def)
  show ?case
  proof (cases "x = CHR 0x0A")
    case True
    with 2(1) le show ?thesis
      by (subst replace_from.simps) (simp add: NEWLINES_def exec_Rep1 eq)
  next
    case False
    with 2(2) show ?thesis
      by (subst replace_from.simps) (simp add: NEWLINES_def exec_Rep1 eq)
  qed
qed


lemma in_marks: "in_cset False (Chars ''.!?'') p = terminal_mark p"
  by (auto simp: same_char_def terminal_mark_def)

lemma exec_SENTENCE_END:
  "rx_exec_at False SENTENCE_END (prev, s) =
     (if after_mark prev then
        (case s of [] \<Rightarrow> None
         | x # xs \<Rightarrow> if is_space x
                    then Some (last_or (Some x) (takeWhile is_space xs), dropWhile is_space xs)
                    else None)
      else None)"
proof (cases "after_mark prev")
  case False
  then show ?thesis
    by (cases prev) (simp_all add: rx_exec_at_def SENTENCE_END_def in_marks del: in_cset.simps)
next
  case True
  then obtain p where p: "prev = Some p" "terminal_mark p" by (cases prev) auto
  have e: "rx_exec_at False SENTENCE_END (prev, s) =
      rx_exec_at False (Rep (Suc 0) Space) (prev, s)"
    using p by (simp add: rx_exec_at_def SENTENCE_END_def in_marks del: in_cset.simps)
  have sp: "in_cset False Space = is_space" by (rule ext) simp
  show ?thesis using True unfolding e exec_Rep1 sp by simp
qed

lemma space_not_mark: "is_space w \<Longrightarrow> \<not> terminal_mark w"
  by (auto simp: is_space_def terminal_mark_def)

lemma last_or_space:
  "is_space x \<Longrightarrow> \<not> after_mark (last_or (Some x) (takeWhile is_space xs))"
proof (cases "takeWhile is_space xs")
  case Nil
  assume "is_space x"
  with Nil show ?thesis by (simp add: space_not_mark)
next
  case (Cons y ys)
  then have "last (y # ys) \<in> set (takeWhile is_space xs)" by (metis last_in_set list.distinct(1))
  then have "is_space (last (y # ys))" by (rule set_takeWhileD [THEN conjunct2])
  with Cons show ?thesis by (simp add: space_not_mark)
qed

lemma split_after_terminal_nonempty: "split_after_terminal b s \<noteq> []"
  by (cases s) (simp_all add: prepend_def split: list.splits)

lemma prepend_Nil: "pieces \<noteq> [] \<Longrightarrow> prepend [] pieces = pieces"
  by (cases pieces) (simp_all add: prepend_def)

lemma prepend_snoc: "prepend (acc @ [x]) pieces = prepend acc (prepend [x] pieces)"
  by (cases pieces) (simp_all add: prepend_def)

lemma split_from_spec:
  "split_from False SENTENCE_END acc (prev, s) =
     prepend acc (split_after_terminal (after_mark prev) s)"
proof (induction s arbitrary: acc prev rule: length_induct)
  case (1 s)
  show ?case
  proof (cases s)
    case Nil
    then show ?thesis by (simp add: split_from.simps prepend_def)
  next
    case (Cons x xs)
    show ?thesis
    proof (cases "after_mark prev \<and> is_space x")
      case True
      let ?p = "last_or (Some x) (takeWhile is_space xs)"
      have len: "length (dropWhile is_space xs) < length s"
        using Cons by (simp add: less_Suc_eq_le length_dropWhile_le)
      have "split_from False SENTENCE_END acc (prev, s) =
              acc # split_from False SENTENCE_END [] (?p, dropWhile is_space xs)"
        using True Cons len by (simp add: split_from.simps exec_SENTENCE_END)
      also have "split_from False SENTENCE_END [] (?p, dropWhile is_space xs) =
              prepend [] (split_after_terminal (after_mark ?p) (dropWhile is_space xs))"
        using 1 len by blast
      also have "\<dots> = split_after_terminal False (dropWhile is_space xs)"
        using True by (simp add: prepend_Nil split_after_terminal_nonempty last_or_space)
      finally show ?thesis
        using True Cons by (simp add: prepend_def)
    next
      case False
      have "split_from False SENTENCE_END acc (prev, s) =
              split_from False SENTENCE_END (acc @ [x]) (Some x, xs)"
        using False Cons by (auto simp: split_from.simps exec_SENTENCE_END)
      also have "\<dots> = prepend (acc @ [x]) (split_after_terminal (after_mark (Some x)) xs)"
        using 1 Cons by simp
      finally show ?thesis
        using False Cons by (auto simp: prepend_snoc)
    qed
  qed
qed

lemma splitSentences_sentences: "splitSentences text = sentences text"
proof -
  let ?u = "collapse_newlines text"
  have r: "js_replace False NEWLINES '' '' text = ?u"
    by (simp add: js_replace_def replace_NEWLINES_collapse)
  have "js_split False SENTENCE_END ?u = split_after_terminal False ?u"
  proof (cases "?u = []")
    case True
    then show ?thesis by (simp add: js_split_def exec_SENTENCE_END)
  next
    case False
    then show ?thesis
      using split_from_spec [of "[]" None ?u]
      by (simp add: js_split_def prepend_Nil split_after_terminal_nonempty)
  qed
  then show ?thesis by (simp add: splitSentences_def sentences_def r)
qed


lemma split_no_mark:
  "\<forall>c\<in>set s. \<not> terminal_mark c \<Longrightarrow> split_after_terminal False s = [s]"
  by (induction s) (simp_all add: prepend_def)

lemma set_collapse_newlines: "set (collapse_newlines s) \<subseteq> insert (CHR '' '') (set s)"
proof (induction s rule: collapse_newlines.induct)
  case 1
  show ?case by simp
next
  case (2 x xs)
  have "set (dropWhile (\<lambda>c. c = CHR 0x0A) xs) \<subseteq> set xs"
    by (rule set_dropWhileD [THEN subsetI])
  with 2 show ?case by (cases "x = CHR 0x0A") auto
qed

lemma collapse_no_newline:
  "CHR 0x0A \<notin> set s \<Longrightarrow> collapse_newlines s = s"
  by (induction s) auto

lemma filter_dropWhile_space:
  "(\<And>c. P c \<Longrightarrow> is_space c) \<Longrightarrow>
   filter (\<lambda>c. \<not> is_space c) (dropWhile P s) = filter (\<lambda>c. \<not> is_space c) s"
  by (induction s) auto

lemma visible_collapse:
  "filter (\<lambda>c. \<not> is_space c) (collapse_newlines s) = filter (\<lambda>c. \<not> is_space c) s"
proof (induction s rule: collapse_newlines.induct)
  case 1
  show ?case by simp
next
  case (2 x xs)
  show ?case
  proof (cases "x = CHR 0x0A")
    case True
    have "filter (\<lambda>c. \<not> is_space c) (dropWhile (\<lambda>c. c = CHR 0x0A) xs)
          = filter (\<lambda>c. \<not> is_space c) xs"
      by (rule filter_dropWhile_space) (simp add: is_space_def)
    with True 2(1) show ?thesis by (simp add: is_space_def)
  next
    case False
    with 2(2) show ?thesis by simp
  qed
qed

lemma concat_prepend: "concat (prepend acc pieces) = acc @ concat pieces"
  by (cases pieces) (simp_all add: prepend_def)

lemma visible_split:
  "filter (\<lambda>c. \<not> is_space c) (concat (split_after_terminal b s))
   = filter (\<lambda>c. \<not> is_space c) s"
proof (induction b s rule: split_after_terminal.induct)
  case (1 b)
  show ?case by simp
next
  case (2 b x xs)
  show ?case
  proof (cases "b \<and> is_space x")
    case True
    with 2(1) show ?thesis by (simp add: filter_dropWhile_space)
  next
    case False
    with 2(2) show ?thesis by (auto simp: concat_prepend)
  qed
qed

lemma visible_trim:
  "filter (\<lambda>c. \<not> is_space c) (trim s) = filter (\<lambda>c. \<not> is_space c) s"
proof -
  have "filter (\<lambda>c. \<not> is_space c) (trim s)
        = rev (filter (\<lambda>c. \<not> is_space c) (dropWhile is_space (rev (dropWhile is_space s))))"
    by (simp add: trim_def rev_filter)
  also have "\<dots> = rev (filter (\<lambda>c. \<not> is_space c) (rev (dropWhile is_space s)))"
    by (simp add: filter_dropWhile_space)
  also have "\<dots> = filter (\<lambda>c. \<not> is_space c) (dropWhile is_space s)"
    by (simp add: rev_filter)
  also have "\<dots> = filter (\<lambda>c. \<not> is_space c) s"
    by (simp add: filter_dropWhile_space)
  finally show ?thesis .
qed

lemma visible_pieces:
  "filter (\<lambda>c. \<not> is_space c) (concat (filter (\<lambda>s. s \<noteq> []) (map trim pieces)))
   = filter (\<lambda>c. \<not> is_space c) (concat pieces)"
proof (induction pieces)
  case Nil
  show ?case by simp
next
  case (Cons p ps)
  have "filter (\<lambda>c. \<not> is_space c) (trim p) = filter (\<lambda>c. \<not> is_space c) p"
    by (rule visible_trim)
  with Cons show ?case by (cases "trim p = []") auto
qed

lemma visible_sentences:
  "filter (\<lambda>c. \<not> is_space c) (concat (sentences t)) = filter (\<lambda>c. \<not> is_space c) t"
  by (simp add: sentences_def visible_pieces visible_split visible_collapse)

lemma trim_ends:
  assumes "trim s \<noteq> []"
  shows "\<not> is_space (hd (trim s)) \<and> \<not> is_space (last (trim s))"
proof -
  let ?y = "dropWhile is_space s"
  let ?z = "dropWhile is_space (rev ?y)"
  from assms have z: "?z \<noteq> []" by (simp add: trim_def)
  then have "\<not> is_space (hd ?z)" by (rule hd_dropWhile)
  with z have l: "\<not> is_space (last (trim s))" by (simp add: trim_def last_rev)
  have y: "?y \<noteq> []"
  proof
    assume "?y = []"
    with z show False by simp
  qed
  then have hy: "\<not> is_space (hd ?y)" by (rule hd_dropWhile)
  have "?z = drop (length (takeWhile is_space (rev ?y))) (rev ?y)"
    by (simp add: dropWhile_eq_drop)
  then have "trim s = take (length ?y - length (takeWhile is_space (rev ?y))) ?y"
    by (simp add: trim_def rev_drop)
  with assms hy have "\<not> is_space (hd (trim s))"
    by (metis hd_take take_eq_Nil2 not_gr_zero)
  with l show ?thesis by simp
qed

lemma sentences_trimmed:
  "s \<in> set (sentences t) \<Longrightarrow> s \<noteq> [] \<and> \<not> is_space (hd s) \<and> \<not> is_space (last s)"
  by (auto simp: sentences_def trim_ends)

lemma sentences_no_mark:
  assumes "\<forall>c\<in>set t. \<not> terminal_mark c"
  shows "sentences t = (if \<forall>c\<in>set t. is_space c then [] else [trim (collapse_newlines t)])"
proof -
  let ?u = "collapse_newlines t"
  have "\<not> terminal_mark (CHR '' '')" by (simp add: terminal_mark_def)
  with assms set_collapse_newlines [of t] have "\<forall>c\<in>set ?u. \<not> terminal_mark c" by auto
  then have sp: "split_after_terminal False ?u = [?u]" by (rule split_no_mark)
  have v: "filter (\<lambda>c. \<not> is_space c) (trim ?u) = filter (\<lambda>c. \<not> is_space c) t"
    by (simp add: visible_trim visible_collapse)
  show ?thesis
  proof (cases "\<forall>c\<in>set t. is_space c")
    case True
    then have "filter (\<lambda>c. \<not> is_space c) t = []" by (simp add: filter_empty_conv)
    with v have "\<forall>c\<in>set (trim ?u). is_space c" by (simp add: filter_empty_conv)
    moreover have "trim ?u = []"
    proof (rule ccontr)
      assume "trim ?u \<noteq> []"
      then have "\<not> is_space (hd (trim ?u))" "hd (trim ?u) \<in> set (trim ?u)"
        by (simp_all add: trim_ends)
      with \<open>\<forall>c\<in>set (trim ?u). is_space c\<close> show False by blast
    qed
    ultimately show ?thesis using True by (simp add: sentences_def sp)
  next
    case False
    then have "filter (\<lambda>c. \<not> is_space c) t \<noteq> []" by (simp add: filter_empty_conv)
    with v have "trim ?u \<noteq> []" by auto
    with False show ?thesis by (simp add: sentences_def sp)
  qed
qed

text \<open>
  Claim C8. For every text, \<open>splitSentences\<close> is the segmenter of the specification: the
  runs of newlines are collapsed to one space, the text is cut at the white space that
  comes right after a terminal mark, the pieces are trimmed and the empty ones dropped.
  Every sentence is non-empty and has no white space at either end, and the visible
  characters of the text are those of the sentences, in the same order. A text without
  terminal mark that is not all white space gives the one sentence that is the whole
  (newline-collapsed) text, trimmed; an empty or all white space text gives no sentence.
\<close>

theorem splitSentences_contract:
  "splitSentences text = sentences text
   \<and> (\<forall>s \<in> set (splitSentences text). s \<noteq> [] \<and> \<not> is_space (hd s) \<and> \<not> is_space (last s))
   \<and> filter (\<lambda>c. \<not> is_space c) (concat (splitSentences text))
       = filter (\<lambda>c. \<not> is_space c) text
   \<and> ((\<forall>c\<in>set text. \<not> terminal_mark c) \<and> (\<exists>c\<in>set text. \<not> is_space c) \<longrightarrow>
        splitSentences text = [trim (collapse_newlines text)])
   \<and> ((\<forall>c\<in>set text. \<not> terminal_mark c \<and> c \<noteq> CHR 0x0A) \<and> (\<exists>c\<in>set text. \<not> is_space c) \<longrightarrow>
        splitSentences text = [trim text])
   \<and> ((\<forall>c\<in>set text. is_space c) \<longrightarrow> splitSentences text = [])"
proof (intro conjI impI)
  show "splitSentences text = sentences text"
    by (rule splitSentences_sentences)
  show "\<forall>s \<in> set (splitSentences text). s \<noteq> [] \<and> \<not> is_space (hd s) \<and> \<not> is_space (last s)"
    unfolding splitSentences_sentences by (intro ballI sentences_trimmed)
  show "filter (\<lambda>c. \<not> is_space c) (concat (splitSentences text))
        = filter (\<lambda>c. \<not> is_space c) text"
    unfolding splitSentences_sentences by (rule visible_sentences)
next
  assume a: "(\<forall>c\<in>set text. \<not> terminal_mark c) \<and> (\<exists>c\<in>set text. \<not> is_space c)"
  then have "sentences text = [trim (collapse_newlines text)]"
    using sentences_no_mark [of "text"] by auto
  then show "splitSentences text = [trim (collapse_newlines text)]"
    by (simp only: splitSentences_sentences)
next
  assume a: "(\<forall>c\<in>set text. \<not> terminal_mark c \<and> c \<noteq> CHR 0x0A)
             \<and> (\<exists>c\<in>set text. \<not> is_space c)"
  then have "CHR 0x0A \<notin> set text" by blast
  then have c: "collapse_newlines text = text" by (rule collapse_no_newline)
  from a have "sentences text = [trim (collapse_newlines text)]"
    using sentences_no_mark [of "text"] by auto
  then show "splitSentences text = [trim text]"
    by (simp only: splitSentences_sentences c)
next
  assume a: "\<forall>c\<in>set text. is_space c"
  then have "\<forall>c\<in>set text. \<not> terminal_mark c" by (blast dest: space_not_mark)
  then have "sentences text = []"
    using sentences_no_mark [of "text"] a by simp
  then show "splitSentences text = []"
    by (simp only: splitSentences_sentences)
qed

theorem splitSentences_contract_witness:
  "splitSentences '' a b '' = [''a b'']
   \<and> splitSentences ''  '' = []
   \<and> sentences (''Hi.  Yo!'' @ [CHR 0x0A] @ ''ok'') = [''Hi.'', ''Yo!'', ''ok'']
   \<and> splitSentences (''Hi.  Yo!'' @ [CHR 0x0A] @ ''ok'') = [''Hi.'', ''Yo!'', ''ok'']"
proof -
  have h1: "\<forall>c\<in>set '' a b ''. \<not> terminal_mark c \<and> c \<noteq> CHR 0x0A"
    by (simp add: terminal_mark_def)
  have h2: "\<exists>c\<in>set '' a b ''. \<not> is_space c"
    by (simp add: is_space_def)
  have h3: "\<forall>c\<in>set ''  ''. is_space c"
    by (simp add: is_space_def)
  have t: "trim '' a b '' = ''a b''"
    by code_simp
  have e: "sentences (''Hi.  Yo!'' @ [CHR 0x0A] @ ''ok'') = [''Hi.'', ''Yo!'', ''ok'']"
    by code_simp
  have r1: "splitSentences '' a b '' = [trim '' a b '']"
    using splitSentences_contract [of "'' a b ''"] h1 h2 by blast
  have r2: "splitSentences ''  '' = []"
    using splitSentences_contract [of "''  ''"] h3 by blast
  have r3: "splitSentences (''Hi.  Yo!'' @ [CHR 0x0A] @ ''ok'')
            = sentences (''Hi.  Yo!'' @ [CHR 0x0A] @ ''ok'')"
    using splitSentences_contract [of "''Hi.  Yo!'' @ [CHR 0x0A] @ ''ok''"] by blast
  show ?thesis
    using r1 [unfolded t] r2 e r3 [unfolded e] by blast
qed

section \<open>Plain-language rewriter: properties\<close>

lemma exec_Rep2:
  "rx_exec_at ic (Rep 2 c) (prev, s) =
     (case s of
        x # y # ys \<Rightarrow>
          if in_cset ic c x \<and> in_cset ic c y
          then Some (last_or (Some y) (takeWhile (in_cset ic c) ys), dropWhile (in_cset ic c) ys)
          else None
      | _ \<Rightarrow> None)"
proof (cases s)
  case Nil
  then show ?thesis by (simp add: rx_exec_at_def)
next
  case (Cons x xs)
  show ?thesis
  proof (cases xs)
    case Nil
    with Cons show ?thesis by (simp add: rx_exec_at_def)
  next
    case (Cons y ys)
    obtain rest where "rep_matches ic c 0 (Some y, ys) =
         (last_or (Some y) (takeWhile (in_cset ic c) ys), dropWhile (in_cset ic c) ys) # rest"
      using rep_matches_0 by blast
    with Cons \<open>s = x # xs\<close> show ?thesis by (simp add: rx_exec_at_def)
  qed
qed

lemma replace_REPEATED_SPACE:
  "replace_from False REPEATED_SPACE '' '' (prev, s) = squeeze_spaces s"
proof (induction s arbitrary: prev rule: squeeze_spaces.induct)
  case 1
  show ?case by (subst replace_from.simps) (simp add: REPEATED_SPACE_def exec_Rep2)
next
  case (2 x)
  have "replace_from False REPEATED_SPACE '' '' (Some x, []) = []"
    by (subst replace_from.simps) (simp add: REPEATED_SPACE_def exec_Rep2)
  then show ?case by (subst replace_from.simps) (simp add: REPEATED_SPACE_def exec_Rep2)
next
  case (3 x y ys)
  have sp: "in_cset False Space = is_space" by (rule ext) simp
  have le: "length (dropWhile is_space ys) < Suc (Suc (length ys))"
    by (simp add: less_Suc_eq_le le_SucI length_dropWhile_le)
  show ?case
  proof (cases "is_space x \<and> is_space y")
    case True
    with 3(1) le show ?thesis
      by (subst replace_from.simps) (simp add: REPEATED_SPACE_def exec_Rep2 sp)
  next
    case False
    with 3(2) show ?thesis
      by (subst replace_from.simps) (auto simp: REPEATED_SPACE_def exec_Rep2 sp)
  qed
qed

lemma fold_apply_rules:
  "fold (\<lambda>(rx, repl) out. js_replace True rx repl out) rules t = apply_rules rules t"
  by (induction rules arbitrary: t) auto

lemma localRewrite_rewrite_with: "localRewrite text = rewrite_with LEGAL_MAP text"
proof (cases "text = []")
  case True
  have "apply_rules LEGAL_MAP [] = []" by code_simp
  with True show ?thesis
    by (simp add: localRewrite_def rewrite_with_def trim_def)
next
  case False
  then show ?thesis
    by (simp add: localRewrite_def rewrite_with_def fold_apply_rules js_replace_def
                  replace_REPEATED_SPACE)
qed

lemma squeeze_head:
  "squeeze_spaces (y # ys) \<noteq> [] \<and> (is_space (hd (squeeze_spaces (y # ys))) \<longleftrightarrow> is_space y)"
  by (cases ys) (auto simp: is_space_def)

lemma successively_squeeze:
  "successively (\<lambda>x y. \<not> space_pair x y) (squeeze_spaces s)"
proof (induction s rule: squeeze_spaces.induct)
  case 1
  show ?case by simp
next
  case (2 x)
  show ?case by simp
next
  case (3 x y ys)
  show ?case
  proof (cases "is_space x \<and> is_space y")
    case True
    let ?d = "dropWhile is_space ys"
    have "squeeze_spaces ?d = [] \<or> \<not> is_space (hd (squeeze_spaces ?d))"
    proof (cases ?d)
      case Nil
      show ?thesis unfolding Nil by simp
    next
      case (Cons z zs)
      then have "\<not> is_space z" by (metis hd_dropWhile list.sel(1) list.distinct(1))
      with squeeze_head [of z zs] show ?thesis unfolding Cons by simp
    qed
    with True 3(1) show ?thesis by (auto simp: successively_Cons space_pair_def)
  next
    case False
    with 3(2) squeeze_head [of y ys] show ?thesis
      by (auto simp: successively_Cons space_pair_def)
  qed
qed

lemma successively_dropWhile:
  "successively P s \<Longrightarrow> successively P (dropWhile Q s)"
proof -
  assume "successively P s"
  then have "successively P (takeWhile Q s @ dropWhile Q s)" by simp
  then show ?thesis by (simp only: successively_append_iff)
qed

lemma space_pair_commute:
  "successively (\<lambda>x y. \<not> space_pair y x) s = successively (\<lambda>x y. \<not> space_pair x y) s"
  by (simp add: space_pair_def conj_commute)

lemma successively_trim:
  assumes "successively (\<lambda>x y. \<not> space_pair x y) s"
  shows "successively (\<lambda>x y. \<not> space_pair x y) (trim s)"
proof -
  from assms have "successively (\<lambda>x y. \<not> space_pair x y) (dropWhile is_space s)"
    by (rule successively_dropWhile)
  then have "successively (\<lambda>x y. \<not> space_pair x y) (rev (dropWhile is_space s))"
    by (simp add: space_pair_commute)
  then have "successively (\<lambda>x y. \<not> space_pair x y)
               (dropWhile is_space (rev (dropWhile is_space s)))"
    by (rule successively_dropWhile)
  then show ?thesis by (simp add: trim_def space_pair_commute)
qed

lemma concat_map_concat:
  "concat (map f (concat (map g xs))) = concat (map (\<lambda>x. concat (map f (g x))) xs)"
  by (induction xs) simp_all

lemma rx_matches_Seq_assoc:
  "rx_matches ic (Seq (Seq a b) c) cur = rx_matches ic (Seq a (Seq b c)) cur"
proof -
  have "rx_matches ic (Seq b c) = (\<lambda>x. concat (map (rx_matches ic c) (rx_matches ic b x)))"
    by (rule ext) simp
  then show ?thesis by (simp add: concat_map_concat)
qed

lemma rx_matches_Seq_cong:
  "(\<And>cur. rx_matches ic b cur = rx_matches ic b' cur) \<Longrightarrow>
   rx_matches ic (Seq a b) cur = rx_matches ic (Seq a b') cur"
proof -
  assume "\<And>cur. rx_matches ic b cur = rx_matches ic b' cur"
  then have "rx_matches ic b = rx_matches ic b'" by (intro ext)
  then show ?thesis by simp
qed

lemma rx_matches_seqs_snoc:
  "rx_matches ic (Seq (seqs (x # xs)) c) cur = rx_matches ic (seqs (x # xs @ [c])) cur"
proof (induction xs arbitrary: x cur)
  case Nil
  show ?case by simp
next
  case (Cons y ys)
  have "rx_matches ic (Seq (seqs (x # y # ys)) c) cur
        = rx_matches ic (Seq x (Seq (seqs (y # ys)) c)) cur"
    by (simp only: seqs.simps rx_matches_Seq_assoc)
  also have "\<dots> = rx_matches ic (Seq x (seqs (y # ys @ [c]))) cur"
    by (rule rx_matches_Seq_cong) (rule Cons)
  finally show ?case by simp
qed

lemma rx_matches_word_bounded:
  "rx_matches ic (word_bounded (seqs (x # xs))) cur
   = rx_matches ic (seqs (WordB # x # xs @ [WordB])) cur"
proof -
  have "rx_matches ic (Seq WordB (Seq (seqs (x # xs)) WordB)) cur
        = rx_matches ic (Seq WordB (seqs (x # xs @ [WordB]))) cur"
    by (rule rx_matches_Seq_cong) (rule rx_matches_seqs_snoc)
  then show ?thesis by (simp add: word_bounded_def)
qed

lemma replace_from_cong:
  assumes "\<And>cur. rx_matches ic r cur = rx_matches ic r' cur"
  shows "replace_from ic r repl cur = replace_from ic r' repl cur"
proof (induction "length (snd cur)" arbitrary: cur rule: less_induct)
  case less
  obtain prev s where cur: "cur = (prev, s)" by (cases cur)
  have e: "rx_exec_at ic r c = rx_exec_at ic r' c" for c
    by (simp add: rx_exec_at_def assms)
  have IH: "replace_from ic r repl (p, t) = replace_from ic r' repl (p, t)"
    if "length t < length s" for p t
    using less [of "(p, t)"] that cur by simp
  show ?case
    unfolding cur
    by (subst replace_from.simps, subst (2) replace_from.simps)
       (auto simp: e IH split: option.splits list.splits)
qed

lemma js_replace_word_bounded:
  "js_replace ic (seqs (WordB # x # xs @ [WordB])) repl t
   = js_replace ic (word_bounded (seqs (x # xs))) repl t"
  unfolding js_replace_def
  by (rule replace_from_cong) (simp only: rx_matches_word_bounded)


lemma word_bounded_Lit: "seqs [WordB, Lit h, WordB] = word_bounded (Lit h)"
  by (simp add: word_bounded_def)

lemma word_bounded_2:
  "js_replace ic (seqs [WordB, a, b, WordB]) repl t
   = js_replace ic (word_bounded (seqs [a, b])) repl t"
  using js_replace_word_bounded [of ic a "[b]" repl t] by (simp only: append.simps)

lemma word_bounded_3:
  "js_replace ic (seqs [WordB, a, b, c, WordB]) repl t
   = js_replace ic (word_bounded (seqs [a, b, c])) repl t"
  using js_replace_word_bounded [of ic a "[b, c]" repl t] by (simp only: append.simps)

lemma word_bounded_4:
  "js_replace ic (seqs [WordB, a, b, c, d, WordB]) repl t
   = js_replace ic (word_bounded (seqs [a, b, c, d])) repl t"
  using js_replace_word_bounded [of ic a "[b, c, d]" repl t] by (simp only: append.simps)

lemma apply_LEGAL_MAP:
  "apply_rules LEGAL_MAP t =
       js_replace True (word_bounded (seqs [Lit ''terminate'', Opt (alts [Lit ''ion'', Lit ''ing''])])) ''end/stop''
       (js_replace True (word_bounded (seqs [Lit ''auto'', Opt (Lit ''-''), Lit ''renew'', Opt (alts [Lit ''a'', Lit ''al''])]))
          ''auto-renewal (automatic renewal of service or payment)''
       (js_replace True
          (word_bounded
            (seqs [Lit ''third'', Opt (One (Chars ''- '')), Lit ''party'',
                  Opt (alts [Lit '' data'', Lit '' services'', Lit '' providers''])]))
          ''other companies''
       (js_replace True (word_bounded (seqs [Lit ''may '', Opt (Lit ''be ''), Lit ''liable for'']))
          ''could be responsible for''
       (js_replace True (word_bounded (Lit ''in the event of'')) ''if''
       (js_replace True (word_bounded (Lit ''to the extent permitted by law''))
          ''if the law allows it''
       (js_replace True (word_bounded (Lit ''hereby'')) ''this means''
       (js_replace True
          (word_bounded
            (seqs [Lit ''you '', alts [Lit ''agree'', Lit ''acknowledge'', Lit ''consent''], Lit '' to'']))
          ''you agree to'' t)))))))"
  unfolding LEGAL_MAP_def apply_rules.simps
  by (simp only: word_bounded_Lit word_bounded_2 word_bounded_3 word_bounded_4)

lemma amended_table:
  "map (\<lambda>(p, repl). (word_bounded p, repl))
     (SPEC_MAP[6 := (seqs [Lit ''auto'', Opt (Lit ''-''), Lit ''renew'', Opt (alts [Lit ''a'', Lit ''al''])], snd (SPEC_MAP ! 6))])
   = [ (word_bounded (seqs [Lit ''you '', alts [Lit ''agree'', Lit ''acknowledge'', Lit ''consent''], Lit '' to'']), ''you agree to''),
       (word_bounded (Lit ''hereby''), ''this means''),
       (word_bounded (Lit ''to the extent permitted by law''), ''if the law allows it''),
       (word_bounded (Lit ''in the event of''), ''if''),
       (word_bounded (seqs [Lit ''may '', Opt (Lit ''be ''), Lit ''liable for'']), ''could be responsible for''),
       (word_bounded
          (seqs [Lit ''third'', Opt (One (Chars ''- '')), Lit ''party'',
                  Opt (alts [Lit '' data'', Lit '' services'', Lit '' providers''])]),
        ''other companies''),
       (word_bounded (seqs [Lit ''auto'', Opt (Lit ''-''), Lit ''renew'', Opt (alts [Lit ''a'', Lit ''al''])]),
        ''auto-renewal (automatic renewal of service or payment)''),
       (word_bounded (seqs [Lit ''terminate'', Opt (alts [Lit ''ion'', Lit ''ing''])]), ''end/stop'') ]"
  by (simp add: SPEC_MAP_def eval_nat_numeral del: seqs.simps alts.simps)

text \<open>
  Claim C3, amended. For every text, \<open>localRewrite\<close> applies eight rules
  case-insensitively, one after the other, each to the outcome of the rules before it:
  the rules of the specification in the order of the specification, with its
  replacements, each pattern enclosed in word boundaries (\<open>\b...\b\<close>) and the pattern of
  rule 7 being \<open>\bauto-?renew(a|al)?\b\<close>. Then every run of two or more white space
  characters becomes one space and the text is trimmed: the result has no two white space
  characters in a row and none at either end.
\<close>

theorem localRewrite_rules:
  "localRewrite text =
     trim (squeeze_spaces
         (js_replace True (word_bounded (seqs [Lit ''terminate'', Opt (alts [Lit ''ion'', Lit ''ing''])])) ''end/stop''
         (js_replace True (word_bounded (seqs [Lit ''auto'', Opt (Lit ''-''), Lit ''renew'', Opt (alts [Lit ''a'', Lit ''al''])]))
            ''auto-renewal (automatic renewal of service or payment)''
         (js_replace True
            (word_bounded
              (seqs [Lit ''third'', Opt (One (Chars ''- '')), Lit ''party'',
                    Opt (alts [Lit '' data'', Lit '' services'', Lit '' providers''])]))
            ''other companies''
         (js_replace True (word_bounded (seqs [Lit ''may '', Opt (Lit ''be ''), Lit ''liable for'']))
            ''could be responsible for''
         (js_replace True (word_bounded (Lit ''in the event of'')) ''if''
         (js_replace True (word_bounded (Lit ''to the extent permitted by law''))
            ''if the law allows it''
         (js_replace True (word_bounded (Lit ''hereby'')) ''this means''
         (js_replace True
            (word_bounded
              (seqs [Lit ''you '', alts [Lit ''agree'', Lit ''acknowledge'', Lit ''consent''], Lit '' to'']))
            ''you agree to'' text)))))))))
   \<and> localRewrite text =
       rewrite_with
         (map (\<lambda>(p, repl). (word_bounded p, repl))
          (SPEC_MAP[6 := (seqs [Lit ''auto'', Opt (Lit ''-''), Lit ''renew'', Opt (alts [Lit ''a'', Lit ''al''])],
                          snd (SPEC_MAP ! 6))])) text
   \<and> map snd LEGAL_MAP = map snd SPEC_MAP
   \<and> localRewrite text = rewrite_with LEGAL_MAP text
   \<and> length LEGAL_MAP = 8
   \<and> successively (\<lambda>x y. \<not> space_pair x y) (localRewrite text)
   \<and> (localRewrite text \<noteq> [] \<longrightarrow>
        \<not> is_space (hd (localRewrite text)) \<and> \<not> is_space (last (localRewrite text)))"
proof (intro conjI impI)
  show "localRewrite text =
     trim (squeeze_spaces
         (js_replace True (word_bounded (seqs [Lit ''terminate'', Opt (alts [Lit ''ion'', Lit ''ing''])])) ''end/stop''
         (js_replace True (word_bounded (seqs [Lit ''auto'', Opt (Lit ''-''), Lit ''renew'', Opt (alts [Lit ''a'', Lit ''al''])]))
            ''auto-renewal (automatic renewal of service or payment)''
         (js_replace True
            (word_bounded
              (seqs [Lit ''third'', Opt (One (Chars ''- '')), Lit ''party'',
                    Opt (alts [Lit '' data'', Lit '' services'', Lit '' providers''])]))
            ''other companies''
         (js_replace True (word_bounded (seqs [Lit ''may '', Opt (Lit ''be ''), Lit ''liable for'']))
            ''could be responsible for''
         (js_replace True (word_bounded (Lit ''in the event of'')) ''if''
         (js_replace True (word_bounded (Lit ''to the extent permitted by law''))
            ''if the law allows it''
         (js_replace True (word_bounded (Lit ''hereby'')) ''this means''
         (js_replace True
            (word_bounded
              (seqs [Lit ''you '', alts [Lit ''agree'', Lit ''acknowledge'', Lit ''consent''], Lit '' to'']))
            ''you agree to'' text)))))))))"
    by (simp only: localRewrite_rewrite_with rewrite_with_def apply_LEGAL_MAP)
  show "localRewrite text =
       rewrite_with
         (map (\<lambda>(p, repl). (word_bounded p, repl))
          (SPEC_MAP[6 := (seqs [Lit ''auto'', Opt (Lit ''-''), Lit ''renew'', Opt (alts [Lit ''a'', Lit ''al''])],
                          snd (SPEC_MAP ! 6))])) text"
    by (simp only: localRewrite_rewrite_with rewrite_with_def apply_LEGAL_MAP amended_table
                   apply_rules.simps)
  show "map snd LEGAL_MAP = map snd SPEC_MAP"
    by (simp add: LEGAL_MAP_def SPEC_MAP_def)
  show "localRewrite text = rewrite_with LEGAL_MAP text"
    by (rule localRewrite_rewrite_with)
  show "length LEGAL_MAP = 8"
    by (simp add: LEGAL_MAP_def)
  show "successively (\<lambda>x y. \<not> space_pair x y) (localRewrite text)"
    unfolding localRewrite_rewrite_with rewrite_with_def
    by (intro successively_trim successively_squeeze)
next
  assume "localRewrite text \<noteq> []"
  then show "\<not> is_space (hd (localRewrite text))" and "\<not> is_space (last (localRewrite text))"
    unfolding localRewrite_rewrite_with rewrite_with_def by (simp_all add: trim_ends)
qed

theorem localRewrite_rules_witness:
  "localRewrite ''whereby  HEREBY '' = ''whereby this means''
   \<and> localRewrite ''auto-renewa'' = ''auto-renewal (automatic renewal of service or payment)''
   \<and> localRewrite ''You CONSENT to the extent permitted by law''
       = ''you agree if the law allows it''
   \<and> localRewrite ''whereby  HEREBY '' \<noteq> []
   \<and> \<not> is_space (hd (localRewrite ''whereby  HEREBY ''))
   \<and> \<not> is_space (last (localRewrite ''whereby  HEREBY ''))"
proof -
  let ?M = "(map (\<lambda>(p, repl). (word_bounded p, repl))
             (SPEC_MAP[6 := (seqs [Lit ''auto'', Opt (Lit ''-''), Lit ''renew'', Opt (alts [Lit ''a'', Lit ''al''])],
                             snd (SPEC_MAP ! 6))]))"
  have a1: "rewrite_with ?M ''whereby  HEREBY '' = ''whereby this means''"
    by code_simp
  have a2: "rewrite_with ?M ''auto-renewa''
            = ''auto-renewal (automatic renewal of service or payment)''"
    by code_simp
  have a3: "rewrite_with ?M ''You CONSENT to the extent permitted by law''
            = ''you agree if the law allows it''"
    by code_simp
  have e1: "localRewrite ''whereby  HEREBY '' = ''whereby this means''"
    using localRewrite_rules [of "''whereby  HEREBY ''", THEN conjunct2, THEN conjunct1]
    by (simp only: a1)
  have e2: "localRewrite ''auto-renewa''
            = ''auto-renewal (automatic renewal of service or payment)''"
    using localRewrite_rules [of "''auto-renewa''", THEN conjunct2, THEN conjunct1]
    by (simp only: a2)
  have e3: "localRewrite ''You CONSENT to the extent permitted by law''
            = ''you agree if the law allows it''"
    using localRewrite_rules
            [of "''You CONSENT to the extent permitted by law''", THEN conjunct2, THEN conjunct1]
    by (simp only: a3)
  have n: "localRewrite ''whereby  HEREBY '' \<noteq> []"
    by (simp add: e1)
  have "localRewrite ''whereby  HEREBY '' \<noteq> [] \<longrightarrow>
        \<not> is_space (hd (localRewrite ''whereby  HEREBY ''))
        \<and> \<not> is_space (last (localRewrite ''whereby  HEREBY ''))"
    using localRewrite_rules [of "''whereby  HEREBY ''"] by blast
  with n e1 e2 e3 show ?thesis by blast
qed

text \<open>
  The claim as stated fails: with the patterns as the specification prints them, rule 2
  would rewrite the \<open>hereby\<close> inside \<open>whereby\<close>, and rule 7 would leave the last letter of
  \<open>auto-renewa\<close> in place; the program does neither.
\<close>

theorem localRewrite_patterns_counterexample:
  "localRewrite ''whereby'' = ''whereby''
   \<and> rewrite_with SPEC_MAP ''whereby'' = ''wthis means''
   \<and> localRewrite ''auto-renewa'' = ''auto-renewal (automatic renewal of service or payment)''
   \<and> rewrite_with SPEC_MAP ''auto-renewa''
       = ''auto-renewal (automatic renewal of service or payment)a''"
  by code_simp

section \<open>Pipeline orchestrator: properties\<close>

lemma runPipeline_unfold:
  "runPipeline w text0 lang =
     Inr \<lparr>run_text = (if text0 = [] then selection w else text0),
          run_summary = fst (summarize_explain w (if text0 = [] then selection w else text0)),
          run_plain = snd (summarize_explain w (if text0 = [] then selection w else text0)),
          run_classification = localClassify (if text0 = [] then selection w else text0),
          cd_input = (if text0 = [] then selection w else text0),
          cd_summary = or_placeholder
            (fst (translate_pair w
                   (fst (summarize_explain w (if text0 = [] then selection w else text0)))
                   (snd (summarize_explain w (if text0 = [] then selection w else text0))) lang)),
          cd_plain = or_placeholder
            (snd (translate_pair w
                   (fst (summarize_explain w (if text0 = [] then selection w else text0)))
                   (snd (summarize_explain w (if text0 = [] then selection w else text0))) lang)),
          cd_risks = map (\<lambda>it. (item_level it, localTranslate (item_explain it) lang))
                       (items (localClassify (if text0 = [] then selection w else text0))),
          cd_confidence =
            (if overall (localClassify (if text0 = [] then selection w else text0)) = Danger
             then ''High risk detected''
             else if overall (localClassify (if text0 = [] then selection w else text0)) = Warning
             then ''Some issues''
             else ''Looks safe'')\<rparr>"
  unfolding runPipeline_def Let_def by (simp only: split_beta)

lemma summarize_explain_failure:
  assumes "hasAPI w"
    and "(\<exists>e. call_remote w (\<lambda>g. summarizeText g t) = Inl e)
         \<or> (\<exists>e. call_remote w (\<lambda>g. generateText g (EXPLAIN_PROMPT @ t)) = Inl e)"
  shows "summarize_explain w t = (localSummarize t 3, localRewrite t)"
  using assms by (auto simp: summarize_explain_def split: sum.splits)

text \<open>
  Claim C2. When the remote capability is available and the remote summary or the remote
  explanation is rejected (also when \<open>window.googleAI\<close> is undefined), the run ends
  without an error, and both the summary and the explanation are the local ones,
  \<open>localSummarize\<close> and \<open>localRewrite\<close> of the text of the run: a remote summary that had
  resolved is not kept.
\<close>

theorem runPipeline_remote_failure:
  assumes "hasAPI w"
    and "(\<exists>e. call_remote w (\<lambda>g. summarizeText g (if text0 = [] then selection w else text0))
                = Inl e)
         \<or> (\<exists>e. call_remote w
                  (\<lambda>g. generateText g
                         (EXPLAIN_PROMPT @ (if text0 = [] then selection w else text0)))
                = Inl e)"
  shows "\<exists>r. runPipeline w text0 lang = Inr r
             \<and> run_text r = (if text0 = [] then selection w else text0)
             \<and> run_summary r = localSummarize (run_text r) 3
             \<and> run_plain r = localRewrite (run_text r)"
  using summarize_explain_failure [OF assms]
  by (simp add: runPipeline_unfold)

theorem runPipeline_remote_failure_witness:
  "hasAPI window_partial
   \<and> call_remote window_partial (\<lambda>g. summarizeText g ''Hi. Yo.'') = Inr ''REMOTE SUMMARY''
   \<and> call_remote window_partial (\<lambda>g. generateText g (EXPLAIN_PROMPT @ ''Hi. Yo.''))
       = Inl (RemoteFailure ''unavailable'')
   \<and> (\<exists>r. runPipeline window_partial ''Hi. Yo.'' ''en'' = Inr r
            \<and> run_summary r = ''Hi. Yo.'' \<and> run_plain r = ''Hi. Yo.'')"
proof -
  have h: "hasAPI window_partial"
    by (simp add: hasAPI_def window_partial_def)
  have s: "call_remote window_partial (\<lambda>g. summarizeText g ''Hi. Yo.'') = Inr ''REMOTE SUMMARY''"
    by (simp add: call_remote_def window_partial_def remote_partial_def)
  have g: "call_remote window_partial (\<lambda>g. generateText g (EXPLAIN_PROMPT @ ''Hi. Yo.''))
           = Inl (RemoteFailure ''unavailable'')"
    by (simp add: call_remote_def window_partial_def remote_partial_def)
  have f: "(\<exists>e. call_remote window_partial
                  (\<lambda>g. summarizeText g (if ''Hi. Yo.'' = [] then selection window_partial
                                          else ''Hi. Yo.'')) = Inl e)
           \<or> (\<exists>e. call_remote window_partial
                  (\<lambda>g. generateText g
                         (EXPLAIN_PROMPT @ (if ''Hi. Yo.'' = [] then selection window_partial
                                            else ''Hi. Yo.''))) = Inl e)"
    using g by simp
  have ls: "localSummarize ''Hi. Yo.'' 3 = ''Hi. Yo.''"
    by code_simp
  have lr: "localRewrite ''Hi. Yo.'' = ''Hi. Yo.''"
    by code_simp
  from runPipeline_remote_failure [OF h f, of "''en''"] obtain r where
    r: "runPipeline window_partial ''Hi. Yo.'' ''en'' = Inr r"
       "run_text r = ''Hi. Yo.''"
       "run_summary r = localSummarize (run_text r) 3"
       "run_plain r = localRewrite (run_text r)"
    by auto
  from r have "run_summary r = ''Hi. Yo.''" and "run_plain r = ''Hi. Yo.''"
    by (simp_all add: ls lr)
  with r(1) h s g show ?thesis by blast
qed

text \<open>
  Claim C6, amended. For every input text, target language and environment, the
  classification of the run is \<open>localClassify\<close> of the untranslated text that the run
  analyses: the input text itself when it is not empty, and the current selection of the
  page when the input text is empty. It depends neither on the target language, nor on the
  availability or the answers of the remote capability, nor on the summary and explanation.
\<close>

theorem runPipeline_classification:
  "\<exists>r. runPipeline w text0 lang = Inr r
       \<and> run_classification r = localClassify (if text0 = [] then selection w else text0)
       \<and> (text0 \<noteq> [] \<longrightarrow> run_classification r = localClassify text0)
       \<and> (\<forall>w' lang'. selection w' = selection w \<longrightarrow>
             map_sum id run_classification (runPipeline w' text0 lang') = Inr (run_classification r))"
  by (simp add: runPipeline_unfold)

theorem runPipeline_classification_witness:
  "''late fee'' \<noteq> []
   \<and> (\<exists>r. runPipeline window_partial ''late fee'' ''es'' = Inr r
            \<and> run_classification r = localClassify ''late fee''
            \<and> overall (run_classification r) = Warning)
   \<and> map_sum id run_classification (runPipeline window_local ''late fee'' ''en'')
       = Inr (localClassify ''late fee'')"
proof -
  have n: "''late fee'' \<noteq> []" by simp
  have o: "overall (localClassify ''late fee'') = Warning"
    by code_simp
  from runPipeline_classification [of window_partial "''late fee''" "''es''"] obtain r where
    r: "runPipeline window_partial ''late fee'' ''es'' = Inr r"
       "''late fee'' \<noteq> [] \<longrightarrow> run_classification r = localClassify ''late fee''"
    by blast
  from r(2) n have c: "run_classification r = localClassify ''late fee''" by blast
  have "map_sum id run_classification (runPipeline window_local ''late fee'' ''en'')
        = Inr (localClassify ''late fee'')"
    by (simp add: runPipeline_unfold)
  with n r(1) c o show ?thesis by auto
qed

text \<open>
  The claim as stated fails for the empty input text on a page with a selection: the
  classification is that of the selection, not that of the (empty) input text.
\<close>

theorem runPipeline_classification_counterexample:
  "map_sum id run_classification (runPipeline window_local [] ''en'')
     = Inr (localClassify ''late fee'')
   \<and> overall (localClassify ''late fee'') = Warning
   \<and> overall (localClassify []) = Safe"
proof -
  have o: "overall (localClassify ''late fee'') = Warning"
    by code_simp
  have s: "overall (localClassify []) = Safe"
    by (simp add: localClassify_def)
  show ?thesis
    by (simp add: runPipeline_unfold window_local_def o s)
qed

end
